theory Spec2Isabelle
  imports Complex_Main
begin

section \<open>QMLify: dependency resolution and build orchestration\<close>

text \<open>
  A shallow embedding of \<^verbatim>\<open>src/qmlify.py\<close>. Exceptions are values of the type
  \<open>error\<close>; the objects the program mutates (the \<^verbatim>\<open>QMLify\<close> session, a
  \<^verbatim>\<open>QMLifyFile\<close>, the file system) are records that are passed in and returned
  updated. Recursion that Python bounds by its recursion limit takes that limit as a
  parameter and raises \<open>RecursionError\<close> when it is used up.
\<close>

subsection \<open>Errors\<close>

type_synonym path = string

datatype error =
    DependencyCycle "path list"
  | RecursionError
  | KeyError string
  | NameError string
  | UnboundLocalError string
  | IndexError
  | ValueError string
  | FileNotFoundError path
  | YAMLError
  | AttributeError string
  | CalledProcessError path
  | Exception string

subsection \<open>The dependency map and its cycle check\<close>

text \<open>\<^verbatim>\<open>QMLify.dependency_map\<close>: a dict from a file name to the list of its dependencies.\<close>

type_synonym depmap = "path \<rightharpoonup> path list"

text \<open>
  \<^verbatim>\<open>QMLify.check_dependency(name, target, chain=None)\<close>. The first argument is the
  recursion depth still available; \<open>check_deps\<close> is the \<^verbatim>\<open>for dep in dependencies\<close>
  loop. Returning normally is \<open>Inr ()\<close>.
\<close>

fun check_dependency :: "nat \<Rightarrow> depmap \<Rightarrow> path \<Rightarrow> path \<Rightarrow> path list option \<Rightarrow> error + unit"
and check_deps :: "nat \<Rightarrow> depmap \<Rightarrow> path \<Rightarrow> path list \<Rightarrow> path list \<Rightarrow> error + unit"
where
  "check_dependency 0 m name target chain = Inl RecursionError"
| "check_dependency (Suc depth) m name target chain =
     (case m name of
        None \<Rightarrow> Inr ()
      | Some dependencies \<Rightarrow>
          check_deps depth m target
            (case chain of None \<Rightarrow> [target, name] | Some c \<Rightarrow> c) dependencies)"
| "check_deps depth m target chain [] = Inr ()"
| "check_deps depth m target chain (dep # rest) =
     (let new_chain = chain @ [dep] in
      if dep = target then Inl (DependencyCycle new_chain)
      else (case check_dependency depth m dep target (Some new_chain) of
              Inl e \<Rightarrow> Inl e
            | Inr u \<Rightarrow> check_deps depth m target chain rest))"

text \<open>
  \<^verbatim>\<open>QMLify.register_dependency(filename, dependency)\<close>: the map is updated before the
  check, so the updated map is returned also when the check raises.
\<close>

definition register_dependency ::
  "nat \<Rightarrow> depmap \<Rightarrow> path \<Rightarrow> path \<Rightarrow> (error + unit) \<times> depmap" where
  "register_dependency depth m filename dependency =
     (let m1 = (if m filename = None then m(filename \<mapsto> []) else m);
          m2 = (case m1 filename of
                  None \<Rightarrow> m1
                | Some ds \<Rightarrow> m1(filename \<mapsto> ds @ [dependency]))
      in (check_dependency depth m2 dependency filename None, m2))"

text \<open>The graph of a dependency map, and a walk along its edges from a node.\<close>

definition edges :: "depmap \<Rightarrow> (path \<times> path) set" where
  "edges m = {(x, y). \<exists>ds. m x = Some ds \<and> y \<in> set ds}"

definition succs :: "depmap \<Rightarrow> path \<Rightarrow> path set" where
  "succs m x = (case m x of None \<Rightarrow> {} | Some ds \<Rightarrow> set ds)"

fun walk :: "depmap \<Rightarrow> path \<Rightarrow> path list \<Rightarrow> bool" where
  "walk m x [] = True"
| "walk m x (y # ys) =
     ((case m x of None \<Rightarrow> False | Some ds \<Rightarrow> y \<in> set ds) \<and> walk m y ys)"

text \<open>The map after the insertion that \<open>register_dependency\<close> makes.\<close>

definition inserted :: "depmap \<Rightarrow> path \<Rightarrow> path \<Rightarrow> depmap" where
  "inserted m filename dependency =
     m(filename \<mapsto> (case m filename of None \<Rightarrow> [] | Some ds \<Rightarrow> ds) @ [dependency])"

text \<open>The recursive calls the traversal for a target makes from the nodes of a set.\<close>

definition calls :: "depmap \<Rightarrow> path \<Rightarrow> path set \<Rightarrow> (path \<times> path) set" where
  "calls m t S = {(d, x). x \<in> S \<and> d \<in> succs m x \<and> d \<noteq> t}"

subsection \<open>Strings\<close>

text \<open>\<^verbatim>\<open>s.startswith(p)\<close>, \<^verbatim>\<open>s.endswith(p)\<close>, \<^verbatim>\<open>p in s\<close> and
  \<^verbatim>\<open>s.replace(a, b)\<close> for single characters.\<close>

definition startswith :: "string \<Rightarrow> string \<Rightarrow> bool" where
  "startswith s p = (take (length p) s = p)"

definition endswith :: "string \<Rightarrow> string \<Rightarrow> bool" where
  "endswith s p = (length p \<le> length s \<and> drop (length s - length p) s = p)"

fun contains :: "string \<Rightarrow> string \<Rightarrow> bool" where
  "contains p [] = (p = [])"
| "contains p (c # cs) = (startswith (c # cs) p \<or> contains p cs)"

definition replace_char :: "char \<Rightarrow> char \<Rightarrow> string \<Rightarrow> string" where
  "replace_char a b s = map (\<lambda>c. if c = a then b else c) s"

subsection \<open>Namespace identifiers\<close>

text \<open>
  The loop of \<^verbatim>\<open>QMLifyFile.module_var\<close>:
  \<^verbatim>\<open>while import_path.startswith('../'): import_path = '_' + import_path[2:]\<close>.
\<close>

function module_var_loop :: "string \<Rightarrow> string" where
  "module_var_loop import_path =
     (if startswith import_path ''../''
      then module_var_loop (CHR ''_'' # drop 2 import_path)
      else import_path)"
  by pat_completeness auto
termination
  by (relation "measure (\<lambda>p. if startswith p ''../'' then 1 else 0)")
     (auto simp: startswith_def)

declare module_var_loop.simps [simp del]

definition module_var :: "string \<Rightarrow> string" where
  "module_var import_path =
     (let p1 = (if startswith import_path ''./'' then drop 2 import_path else import_path);
          p2 = module_var_loop p1
      in ''QML_'' @ replace_char CHR ''-'' CHR ''_''
                     (replace_char CHR ''.'' CHR ''_''
                        (replace_char CHR ''/'' CHR ''_'' p2)))"

text \<open>
  The identifier as the specification words it: a leading \<^verbatim>\<open>./\<close> is stripped, each
  leading \<^verbatim>\<open>../\<close> becomes a \<^verbatim>\<open>_\<close> segment, then separators, dots and
  hyphens become underscores, behind the marker \<^verbatim>\<open>QML_\<close>.
\<close>

fun convert_parents :: "string \<Rightarrow> string" where
  "convert_parents (a # b # c # rest) =
     (if [a, b, c] = ''../'' then ''_/'' @ convert_parents rest else a # b # c # rest)"
| "convert_parents p = p"

definition module_var_spec :: "string \<Rightarrow> string" where
  "module_var_spec import_path =
     ''QML_'' @ map (\<lambda>c. if c \<in> {CHR ''/'', CHR ''.'', CHR ''-''} then CHR ''_'' else c)
       (convert_parents
          (if startswith import_path ''./'' then drop 2 import_path else import_path))"

subsection \<open>Paths\<close>

text \<open>
  The functions of Python's \<^verbatim>\<open>os.path\<close> (the POSIX flavour) that the program calls.
  The working directory, which \<^verbatim>\<open>os.getcwd()\<close> returns, is their first argument.
\<close>

text \<open>\<^verbatim>\<open>s.split('/')\<close> and \<^verbatim>\<open>'/'.join(xs)\<close>.\<close>

fun split_on :: "char \<Rightarrow> string \<Rightarrow> string list" where
  "split_on sep [] = [[]]"
| "split_on sep (c # cs) =
     (if c = sep then [] # split_on sep cs
      else (case split_on sep cs of [] \<Rightarrow> [[c]] | w # ws \<Rightarrow> (c # w) # ws))"

abbreviation split_sep :: "string \<Rightarrow> string list" where
  "split_sep \<equiv> split_on CHR ''/''"

fun join_sep :: "string list \<Rightarrow> string" where
  "join_sep [] = []"
| "join_sep [x] = x"
| "join_sep (x # y # ys) = x @ ''/'' @ join_sep (y # ys)"

definition isabs :: "path \<Rightarrow> bool" where
  "isabs p = startswith p ''/''"

text \<open>\<^verbatim>\<open>os.path.join(a, *p)\<close>: one round of its loop, and the loop.\<close>

definition join2 :: "path \<Rightarrow> path \<Rightarrow> path" where
  "join2 a b =
     (if startswith b ''/'' then b
      else if a = [] \<or> endswith a ''/'' then a @ b
      else a @ ''/'' @ b)"

definition path_join :: "path \<Rightarrow> path list \<Rightarrow> path" where
  "path_join a ps = foldl join2 a ps"

text \<open>\<^verbatim>\<open>os.path.normpath\<close>: the number of leading slashes it keeps, one round of its
  loop over the components, and the function.\<close>

definition initial_slashes :: "path \<Rightarrow> nat" where
  "initial_slashes p =
     (if startswith p ''/''
      then (if startswith p ''//'' \<and> \<not> startswith p ''///'' then 2 else 1)
      else 0)"

definition norm_step :: "nat \<Rightarrow> string list \<Rightarrow> string \<Rightarrow> string list" where
  "norm_step slashes new_comps part =
     (if part = [] \<or> part = ''.'' then new_comps
      else if part \<noteq> ''..'' \<or> (slashes = 0 \<and> new_comps = [])
                \<or> (new_comps \<noteq> [] \<and> last new_comps = ''..'')
           then new_comps @ [part]
      else if new_comps \<noteq> [] then butlast new_comps
      else new_comps)"

definition normpath :: "path \<Rightarrow> path" where
  "normpath p =
     (if p = [] then ''.''
      else
        (let slashes = initial_slashes p;
             comps = foldl (norm_step slashes) [] (split_sep p);
             p' = replicate slashes CHR ''/'' @ join_sep comps
         in if p' = [] then ''.'' else p'))"

definition abspath :: "path \<Rightarrow> path \<Rightarrow> path" where
  "abspath cwd p = normpath (if isabs p then p else join2 cwd p)"

text \<open>The length of \<^verbatim>\<open>os.path.commonprefix\<close> of two component lists.\<close>

fun common_prefix :: "string list \<Rightarrow> string list \<Rightarrow> nat" where
  "common_prefix (x # xs) (y # ys) = (if x = y then Suc (common_prefix xs ys) else 0)"
| "common_prefix xs ys = 0"

text \<open>\<^verbatim>\<open>os.path.relpath(path, start)\<close>; an empty path raises \<^verbatim>\<open>ValueError\<close>.\<close>

definition relpath :: "path \<Rightarrow> path \<Rightarrow> path \<Rightarrow> error + path" where
  "relpath cwd p start =
     (if p = [] then Inl (ValueError ''no path specified'')
      else
        (let start_list = filter (\<lambda>x. x \<noteq> []) (split_sep (abspath cwd start));
             path_list = filter (\<lambda>x. x \<noteq> []) (split_sep (abspath cwd p));
             i = common_prefix start_list path_list;
             rel_list = replicate (length start_list - i) ''..'' @ drop i path_list
         in (case rel_list of
               [] \<Rightarrow> Inr ''.''
             | r # rs \<Rightarrow> Inr (path_join r rs))))"

text \<open>\<^verbatim>\<open>os.path.dirname\<close> and \<^verbatim>\<open>os.path.basename\<close>.\<close>

definition path_dirname :: "path \<Rightarrow> path" where
  "path_dirname p =
     (let head = rev (dropWhile (\<lambda>c. c \<noteq> CHR ''/'') (rev p))
      in if head \<noteq> [] \<and> head \<noteq> replicate (length head) CHR ''/''
         then rev (dropWhile (\<lambda>c. c = CHR ''/'') (rev head))
         else head)"

definition path_basename :: "path \<Rightarrow> path" where
  "path_basename p = rev (takeWhile (\<lambda>c. c \<noteq> CHR ''/'') (rev p))"

text \<open>
  Notions for reasoning about paths: the path that \<open>abspath\<close> normalises, the stack
  of components that \<open>normpath\<close> builds, a stack without empty, \<^verbatim>\<open>.\<close> and
  \<^verbatim>\<open>..\<close> components, and a path that does not start with two slashes.
\<close>

definition absolute :: "path \<Rightarrow> path \<Rightarrow> path" where
  "absolute wd p = (if isabs p then p else join2 wd p)"

definition norm_comps :: "path \<Rightarrow> string list" where
  "norm_comps p = foldl (norm_step (initial_slashes p)) [] (split_sep p)"

definition clean :: "string list \<Rightarrow> bool" where
  "clean st \<longleftrightarrow> (\<forall>w\<in>set st. w \<noteq> [] \<and> w \<noteq> ''.'' \<and> w \<noteq> ''..'' \<and> CHR ''/'' \<notin> set w)"

definition plain :: "path \<Rightarrow> bool" where
  "plain p \<longleftrightarrow> \<not> startswith p ''//''"

subsection \<open>The session, its files and the world around them\<close>

text \<open>An entry of the cache: \<^verbatim>\<open>{'dependencies': [...], 'globals': [...]}\<close>.\<close>

record cache_entry =
  ce_dependencies :: "path list"
  ce_globals :: "string list"

text \<open>
  What \<^verbatim>\<open>load_yaml('.qmlify_cache')\<close> makes of the cache file: the parser raises, or
  the document is no mapping (an empty file loads as \<^verbatim>\<open>None\<close>), or it is a mapping,
  with or without the key \<^verbatim>\<open>files\<close>.
\<close>

datatype yaml_doc =
    YamlInvalid
  | YamlScalar
  | YamlMapping "(path \<rightharpoonup> cache_entry) option"

text \<open>
  The rewriter works on the text of a file with regular expressions. The model takes
  what they find in a file as given: the names after \<^verbatim>\<open>global.\<close>, and the matches
  of \<^verbatim>\<open>require_as\<close>, of \<^verbatim>\<open>require_effects\<close> and of \<^verbatim>\<open>require\<close>, each in
  the order and at the stage of \<^verbatim>\<open>build_imports\<close> at which the program meets them.
\<close>

record source =
  src_globals :: "string list"
  src_require_as :: "(string \<times> string) list"
  src_require_effects :: "string list"
  src_require :: "string list"

text \<open>An \<^verbatim>\<open>NPMModule\<close>: its name and the \<^verbatim>\<open>main\<close> entry of its
  \<^verbatim>\<open>package.json\<close>, if it has one.\<close>

record npm_module =
  npm_name :: string
  npm_main :: "string option"

text \<open>A \<^verbatim>\<open>QMLifyFile\<close>. A Python set is a list without duplicates.\<close>

record qfile =
  filename :: path
  base_dir :: path
  dependencies :: "path list"
  globals :: "string list"
  imported_globals :: "string list"
  dirname :: path
  basename :: path
  rel_filename :: path
  use_babel :: bool
  build_dir :: path
  out_filename :: path
  out_dirname :: path
  header :: string
  post_header :: string
  footer :: string

text \<open>
  The \<^verbatim>\<open>QMLify\<close> object, and with it what the program changes outside itself: the
  modification times of the paths that exist, the cache file and standard output.
  \<open>package_info\<close> is the \<^verbatim>\<open>dependencies\<close> entry of the project manifest.
\<close>

record session =
  s_build_dir :: path
  use_polyfills :: bool
  s_use_babel :: bool
  dependency_map :: depmap
  modules :: "string \<rightharpoonup> npm_module"
  s_base_dir :: path
  files :: "path \<rightharpoonup> qfile"
  package_info :: "string \<rightharpoonup> string option"
  cache :: "path \<rightharpoonup> cache_entry"
  mtime :: "path \<rightharpoonup> real"
  cache_doc :: yaml_doc
  stdout :: "string list"

text \<open>
  What the program only reads: the working directory, the path of the script itself
  (\<^verbatim>\<open>__file__\<close>), Python's recursion limit, the global \<^verbatim>\<open>available_modules\<close>,
  the sources (with and without Babel), the \<^verbatim>\<open>main\<close> entries of the
  \<^verbatim>\<open>package.json\<close> files, and the time a written path is stamped with.
\<close>

record env =
  cwd :: path
  script :: path
  recursion_limit :: nat
  available_modules :: "string \<rightharpoonup> string"
  sources :: "bool \<Rightarrow> path \<rightharpoonup> source"
  package_json :: "path \<rightharpoonup> string option"
  write_time :: "path \<Rightarrow> real"

text \<open>A step of the program: it raises or returns, and leaves a session behind.\<close>

type_synonym 'a action = "session \<Rightarrow> (error + 'a) \<times> session"

definition ret :: "'a \<Rightarrow> 'a action" where
  "ret x s = (Inr x, s)"

definition raise :: "error \<Rightarrow> 'a action" where
  "raise e s = (Inl e, s)"

definition lift :: "error + 'a \<Rightarrow> 'a action" where
  "lift r s = (r, s)"

definition and_then :: "'a action \<Rightarrow> ('a \<Rightarrow> 'b action) \<Rightarrow> 'b action" where
  "and_then a f s = (case a s of (Inl e, s') \<Rightarrow> (Inl e, s') | (Inr x, s') \<Rightarrow> f x s')"

text \<open>A \<^verbatim>\<open>for\<close> loop whose body changes the file and the session.\<close>

fun for_each :: "('x \<Rightarrow> qfile \<Rightarrow> qfile action) \<Rightarrow> 'x list \<Rightarrow> qfile \<Rightarrow> qfile action" where
  "for_each body [] f s = (Inr f, s)"
| "for_each body (x # xs) f s =
     (case body x f s of
        (Inl e, s') \<Rightarrow> (Inl e, s')
      | (Inr f', s') \<Rightarrow> for_each body xs f' s')"

text \<open>\<^verbatim>\<open>set(xs)\<close> and \<^verbatim>\<open>a | b\<close>.\<close>

definition pyset :: "string list \<Rightarrow> string list" where
  "pyset xs = remdups xs"

definition set_union :: "string list \<Rightarrow> string list \<Rightarrow> string list" where
  "set_union xs ys = remdups (xs @ ys)"

definition nl :: string where
  "nl = [CHR 0x0A]"

definition dq :: string where
  "dq = [CHR 0x22]"

definition sq :: string where
  "sq = [CHR 0x27]"

text \<open>\<^verbatim>\<open>s.strip()\<close> on ASCII.\<close>

definition is_space :: "char \<Rightarrow> bool" where
  "is_space c = (c \<in> {CHR 0x09, CHR 0x0A, CHR 0x0B, CHR 0x0C, CHR 0x0D, CHR 0x1C, CHR 0x1D,
                       CHR 0x1E, CHR 0x1F, CHR 0x20})"

definition strip :: "string \<Rightarrow> string" where
  "strip s = rev (dropWhile is_space (rev (dropWhile is_space s)))"

text \<open>The module constants \<^verbatim>\<open>polyfills\<close> and \<^verbatim>\<open>post_header\<close> (formatted with a
  base name).\<close>

definition polyfills :: "string list" where
  "polyfills = [''WeakMap'', ''Map'', ''WeakSet'', ''Set'', ''Symbol'', ''Reflect'',
                ''Promise'', ''fetch'', ''Request'', ''Response'', ''Headers'']"

definition post_header_format :: "string \<Rightarrow> string" where
  "post_header_format name =
     nl @ ''var __filename = Qt.resolvedUrl('' @ sq @ name @ sq @ '').substring(7);'' @ nl
     @ ''var __dirname = __filename.substring(0, __filename.lastIndexOf('' @ sq @ ''/'' @ sq
     @ ''));'' @ nl
     @ nl
     @ ''var module = { exports: {} };'' @ nl
     @ ''var exports = module.exports;'' @ nl
     @ ''var global = {};'' @ nl"

subsection \<open>Build units\<close>

text \<open>\<^verbatim>\<open>QMLifyFile.__init__(qmlify, filename, base_dir, build_dir=None, use_babel=None)\<close>.\<close>

definition QMLifyFile ::
  "env \<Rightarrow> session \<Rightarrow> path \<Rightarrow> path \<Rightarrow> path option \<Rightarrow> bool option \<Rightarrow> error + qfile" where
  "QMLifyFile e s fname bdir build_dir_arg use_babel_arg =
     (case relpath (cwd e) fname (cwd e) of
        Inl err \<Rightarrow> Inl err
      | Inr fn \<Rightarrow>
          (case relpath (cwd e) fname bdir of
             Inl err \<Rightarrow> Inl err
           | Inr rel \<Rightarrow>
               (let bd = (case build_dir_arg of None \<Rightarrow> s_build_dir s | Some b \<Rightarrow> b);
                    out = path_join bd [rel]
                in Inr \<lparr> filename = fn, base_dir = bdir, dependencies = [], globals = [],
                         imported_globals = [], dirname = path_dirname fname,
                         basename = path_basename fname, rel_filename = rel,
                         use_babel = (case use_babel_arg of None \<Rightarrow> s_use_babel s
                                      | Some b \<Rightarrow> b),
                         build_dir = bd, out_filename = out,
                         out_dirname = path_dirname out,
                         header = [], post_header = [], footer = [] \<rparr>)))"

text \<open>
  The property \<^verbatim>\<open>needs_build\<close>. \<^verbatim>\<open>os.path.getmtime\<close> raises on a path that does
  not exist, and \<^verbatim>\<open>or\<close> evaluates its right operand only when the left one is false.
\<close>

definition needs_build :: "env \<Rightarrow> session \<Rightarrow> qfile \<Rightarrow> error + bool" where
  "needs_build e s f =
     (case mtime s (out_filename f) of
        None \<Rightarrow> Inr True
      | Some t_out \<Rightarrow>
          (case mtime s (filename f) of
             None \<Rightarrow> Inl (FileNotFoundError (filename f))
           | Some t_in \<Rightarrow>
               if t_in > t_out then Inr True
               else (case mtime s (script e) of
                       None \<Rightarrow> Inl (FileNotFoundError (script e))
                     | Some t_script \<Rightarrow> Inr (t_script > t_out))))"



text \<open>\<^verbatim>\<open>QMLifyFile.save_cache\<close> and \<^verbatim>\<open>QMLifyFile.load_cache\<close>.\<close>

fun relpaths :: "path \<Rightarrow> path \<Rightarrow> path list \<Rightarrow> error + path list" where
  "relpaths wd start [] = Inr []"
| "relpaths wd start (dep # deps) =
     (case relpath wd dep start of
        Inl err \<Rightarrow> Inl err
      | Inr r \<Rightarrow> (case relpaths wd start deps of Inl err \<Rightarrow> Inl err | Inr rs \<Rightarrow> Inr (r # rs)))"

definition QMLifyFile_save_cache :: "env \<Rightarrow> qfile \<Rightarrow> unit action" where
  "QMLifyFile_save_cache e f s =
     (case relpaths (cwd e) (dirname f) (dependencies f) of
        Inl err \<Rightarrow> (Inl err, s)
      | Inr rels \<Rightarrow>
          (Inr (), s\<lparr> cache := (cache s)(filename f \<mapsto>
                        \<lparr> ce_dependencies = rels, ce_globals = globals f \<rparr>) \<rparr>))"

definition QMLifyFile_load_cache :: "env \<Rightarrow> qfile \<Rightarrow> qfile action" where
  "QMLifyFile_load_cache e f s =
     (case cache s (filename f) of
        None \<Rightarrow> (Inl (KeyError (filename f)), s)
      | Some info \<Rightarrow>
          (Inr (f\<lparr> dependencies :=
                     map (\<lambda>dep. abspath (cwd e) (path_join (dirname f) [dep]))
                       (ce_dependencies info),
                   globals := pyset (ce_globals info) \<rparr>), s))"

text \<open>\<^verbatim>\<open>QMLify.save_cache\<close> and \<^verbatim>\<open>QMLify.load_cache\<close>.\<close>

definition QMLify_save_cache :: "env \<Rightarrow> unit action" where
  "QMLify_save_cache e s =
     (Inr (), s\<lparr> cache_doc := YamlMapping (Some (cache s)),
                 mtime := (mtime s)(''.qmlify_cache'' \<mapsto> write_time e ''.qmlify_cache'') \<rparr>)"


text \<open>\<^verbatim>\<open>QMLifyFile.add_polyfills\<close> and \<^verbatim>\<open>QMLifyFile.export_globals\<close>.\<close>

definition add_polyfills :: "qfile \<Rightarrow> qfile" where
  "add_polyfills f =
     f\<lparr> header := header f @ ''.import Quickly 0.1 as QML_Quickly'' @ nl,
        post_header := post_header f @ ''var _Polyfills = QML_Quickly.Polyfills.global'' @ nl
          @ concat (map (\<lambda>polyfill. ''var '' @ polyfill @ '' = _Polyfills.'' @ polyfill @ nl)
                      polyfills) \<rparr>"

definition export_line :: "string \<Rightarrow> string" where
  "export_line name = ''var '' @ name @ '' = global.'' @ name @ '';'' @ nl"

definition export_globals :: "qfile \<Rightarrow> qfile" where
  "export_globals f =
     f\<lparr> footer := footer f @
          concat (map export_line
                    (filter (\<lambda>name. name \<notin> set (imported_globals f)) (globals f))) \<rparr>"

text \<open>
  \<^verbatim>\<open>QMLifyFile.add_dependency(dependency, import_as)\<close>: the dependency is a
  \<^verbatim>\<open>QMLifyFile\<close> or a name.
\<close>

datatype dependency = DepFile qfile | DepName string

definition dep_name :: "dependency \<Rightarrow> path" where
  "dep_name dep = (case dep of DepFile d \<Rightarrow> filename d | DepName n \<Rightarrow> n)"

definition import_line :: "string \<Rightarrow> string \<Rightarrow> string" where
  "import_line import_as name =
     ''var '' @ name @ '' = global.'' @ name @ '' = '' @ import_as @ ''.global.'' @ name
     @ '';'' @ nl"

definition add_dependency :: "env \<Rightarrow> qfile \<Rightarrow> dependency \<Rightarrow> string \<Rightarrow> qfile action" where
  "add_dependency e f dep import_as s =
     (let f1 = (case dep of
                  DepFile d \<Rightarrow>
                    f\<lparr> post_header := post_header f @
                         concat (map (import_line import_as)
                                   (filter (\<lambda>name. name \<notin> set (imported_globals f))
                                      (globals d))),
                       globals := set_union (globals f) (globals d),
                       imported_globals := set_union (imported_globals f) (globals d) \<rparr>
                | DepName n \<Rightarrow> f);
          fname = dep_name dep;
          f2 = f1\<lparr> dependencies := dependencies f1 @ [fname] \<rparr>
      in (case register_dependency (recursion_limit e) (dependency_map s) (out_filename f) fname of
            (Inl err, m) \<Rightarrow> (Inl err, s\<lparr> dependency_map := m \<rparr>)
          | (Inr u, m) \<Rightarrow> (Inr f2, s\<lparr> dependency_map := m \<rparr>)))"

subsection \<open>The module resolver\<close>

text \<open>
  A nested build is a parameter of the functions that start one: \<^verbatim>\<open>QMLifyFile.build\<close>
  is recursive through them, and is tied up below by the recursion depth.
\<close>

type_synonym builder = "qfile \<Rightarrow> qfile action"

text \<open>\<^verbatim>\<open>QMLifyFile.require_local(filename, import_as)\<close>.\<close>

definition require_local ::
  "builder \<Rightarrow> env \<Rightarrow> qfile \<Rightarrow> string \<Rightarrow> string \<Rightarrow> (qfile \<times> string) action" where
  "require_local B e f fname import_as s =
     (if contains ''.js'' fname
      then (Inl (Exception (''Don'' @ sq @ ''t include the .js file extension when ''
                            @ ''importing/requiring: '' @ fname)), s)
      else
        (let fname' = fname @ ''.js'';
             dep = abspath (cwd e) (path_join (dirname f) [fname'])
         in (case QMLifyFile e s dep (base_dir f) (Some (build_dir f)) (Some (use_babel f)) of
               Inl err \<Rightarrow> (Inl err, s)
             | Inr qmlified_file \<Rightarrow>
                 and_then (B qmlified_file) (\<lambda>built.
                 and_then (add_dependency e f (DepFile built) import_as) (\<lambda>f1.
                   ret (f1\<lparr> header := header f1 @ ''.import '' @ dq @ fname' @ dq @ '' as ''
                                         @ import_as @ nl \<rparr>,
                        import_as @ ''.module.exports''))) s)))"

text \<open>The properties and the methods of \<^verbatim>\<open>NPMModule\<close>.\<close>

definition NPMModule_src_dirname :: "env \<Rightarrow> session \<Rightarrow> string \<Rightarrow> path" where
  "NPMModule_src_dirname e s name =
     abspath (cwd e) (path_join (s_base_dir s) [''node_modules'', name])"

definition NPMModule_dirname :: "env \<Rightarrow> session \<Rightarrow> string \<Rightarrow> path" where
  "NPMModule_dirname e s name =
     abspath (cwd e) (path_join (s_build_dir s) [''dependencies'', name])"

definition NPMModule_exists :: "env \<Rightarrow> session \<Rightarrow> string \<Rightarrow> bool" where
  "NPMModule_exists e s name = (mtime s (NPMModule_src_dirname e s name) \<noteq> None)"

definition NPMModule_main :: "npm_module \<Rightarrow> string" where
  "NPMModule_main m = (case npm_main m of None \<Rightarrow> ''index.js'' | Some x \<Rightarrow> x)"

definition NPMModule_main_filename :: "env \<Rightarrow> session \<Rightarrow> npm_module \<Rightarrow> path" where
  "NPMModule_main_filename e s m =
     abspath (cwd e) (path_join (NPMModule_dirname e s (npm_name m)) [NPMModule_main m])"

definition NPMModule_init :: "env \<Rightarrow> session \<Rightarrow> string \<Rightarrow> error + npm_module" where
  "NPMModule_init e s name =
     (if NPMModule_exists e s name
      then (let package_file = path_join (NPMModule_src_dirname e s name) [''package.json'']
            in case package_json e package_file of
                 None \<Rightarrow> Inl (FileNotFoundError package_file)
               | Some main_entry \<Rightarrow> Inr \<lparr> npm_name = name, npm_main = main_entry \<rparr>)
      else Inr \<lparr> npm_name = name, npm_main = None \<rparr>)"

definition NPMModule_require ::
  "builder \<Rightarrow> env \<Rightarrow> npm_module \<Rightarrow> string option \<Rightarrow> qfile action" where
  "NPMModule_require B e m filename_arg s =
     (let fname0 = (case filename_arg of None \<Rightarrow> NPMModule_main m | Some x \<Rightarrow> x);
          src_dirname = NPMModule_src_dirname e s (npm_name m);
          fname = abspath (cwd e) (path_join src_dirname [fname0])
      in (case QMLifyFile e s fname src_dirname (Some (NPMModule_dirname e s (npm_name m)))
                 (Some False) of
            Inl err \<Rightarrow> (Inl err, s)
          | Inr file \<Rightarrow> B file s))"

text \<open>
  \<^verbatim>\<open>QMLifyFile.require_npm(import_path, import_as)\<close>; \<open>None\<close> is Python's
  \<^verbatim>\<open>None\<close>. \<open>find_module\<close> is its look-up of the module in
  \<^verbatim>\<open>self.qmlify.modules\<close>, which makes and registers the module when it is new and
  exists.
\<close>

definition find_module :: "env \<Rightarrow> string \<Rightarrow> npm_module option action" where
  "find_module e module_name s =
     (case modules s module_name of
        Some m \<Rightarrow> (Inr (Some m), s)
      | None \<Rightarrow>
          (case NPMModule_init e s module_name of
             Inl err \<Rightarrow> (Inl err, s)
           | Inr m \<Rightarrow>
               if \<not> NPMModule_exists e s module_name then (Inr None, s)
               else (Inr (Some m), s\<lparr> modules := (modules s)(module_name \<mapsto> m) \<rparr>)))"

definition require_npm ::
  "builder \<Rightarrow> env \<Rightarrow> qfile \<Rightarrow> string \<Rightarrow> string \<Rightarrow> (qfile \<times> string option) action" where
  "require_npm B e f import_path import_as =
     (let module_name = (if contains ''/'' import_path
                         then takeWhile (\<lambda>c. c \<noteq> CHR ''/'') import_path else import_path);
          filename_arg = (if contains ''/'' import_path
                          then Some (drop 1 (dropWhile (\<lambda>c. c \<noteq> CHR ''/'') import_path)
                                     @ ''.js'')
                          else None)
      in and_then (find_module e module_name) (\<lambda>found s1.
           (case found of
              None \<Rightarrow> (Inr (f, None), s1)
            | Some m \<Rightarrow>
                (let fname = (case filename_arg of
                                None \<Rightarrow> NPMModule_main_filename e s1 m
                              | Some x \<Rightarrow> x)
                 in and_then (NPMModule_require B e m filename_arg) (\<lambda>qmlified_file.
                    and_then (add_dependency e f (DepFile qmlified_file) import_as) (\<lambda>f1.
                    and_then (lift (relpath (cwd e) fname (out_dirname f1))) (\<lambda>rel.
                      ret (f1\<lparr> header := header f1 @ ''.import '' @ dq @ rel @ dq
                                            @ '' as '' @ import_as @ nl \<rparr>,
                           Some (import_as @ ''.module.exports''))))) s1))))"

text \<open>\<^verbatim>\<open>QMLifyFile.require_qpm\<close> returns \<^verbatim>\<open>None\<close>.\<close>

definition require_qpm :: "qfile \<Rightarrow> string \<Rightarrow> string \<Rightarrow> (qfile \<times> string option) action" where
  "require_qpm f import_path import_as s = (Inr (f, None), s)"

text \<open>
  \<^verbatim>\<open>QMLifyFile.parse_import(import_path)\<close>. The version is unbound (\<open>None\<close>),
  Python's \<^verbatim>\<open>None\<close> (\<open>Some None\<close>) or a string.
\<close>

definition parse_import ::
  "env \<Rightarrow> string \<Rightarrow> (string \<times> string \<times> string option) action" where
  "parse_import e import_path s =
     (case available_modules e import_path of
        None \<Rightarrow> (Inl (KeyError import_path), s)
      | Some module0 \<Rightarrow>
          (case (if contains '' '' module0
                 then (case split_on CHR '' '' module0 of
                         [m, v] \<Rightarrow> Inr (m, Some (Some v))
                       | _ \<Rightarrow> Inl (ValueError ''unpack''))
                 else Inr (module0, None)) of
             Inl err \<Rightarrow> (Inl err, s)
           | Inr (module1, version0) \<Rightarrow>
               (case (case package_info s import_path of
                        Some v \<Rightarrow> Some v
                      | None \<Rightarrow> version0) of
                  None \<Rightarrow> (Inl (UnboundLocalError ''version''), s)
                | Some version \<Rightarrow>
                    (let s1 = (if version = None
                               then s\<lparr> stdout := stdout s @
                                      [''No version specified and latest version not specified: ''
                                       @ import_path] \<rparr>
                               else s)
                     in (case split_sep module1 of
                           [qml_module, qml_type] \<Rightarrow> (Inr (qml_module, qml_type, version), s1)
                         | _ \<Rightarrow> (Inl (ValueError ''unpack''), s1))))))"

definition py_str :: "string option \<Rightarrow> string" where
  "py_str v = (case v of None \<Rightarrow> ''None'' | Some x \<Rightarrow> x)"

text \<open>\<^verbatim>\<open>QMLifyFile.require_qml(import_path, import_as)\<close>.\<close>

definition require_qml ::
  "env \<Rightarrow> qfile \<Rightarrow> string \<Rightarrow> string \<Rightarrow> (qfile \<times> string option) action" where
  "require_qml e f import_path import_as s =
     (if available_modules e import_path \<noteq> None
      then and_then (parse_import e import_path) (\<lambda>(qml_module, qml_type, version).
           and_then (add_dependency e f (DepName import_path) import_as) (\<lambda>f1.
             ret (f1\<lparr> header := header f1 @ ''.import '' @ qml_module @ '' '' @ py_str version
                                   @ '' as '' @ import_as @ nl \<rparr>,
                  Some (''('' @ import_as @ ''.'' @ qml_type @ ''.module ? '' @ import_as
                        @ ''.'' @ qml_type @ ''.module.exports : '' @ import_as @ ''.''
                        @ qml_type @ '')'')))) s
      else (Inr (f, None), s))"

text \<open>
  \<^verbatim>\<open>QMLifyFile.require(import_path, import_as)\<close>. Its three failure branches build
  their messages from \<^verbatim>\<open>module_name\<close>, a name that is bound neither in the method nor
  in the module: each raises \<^verbatim>\<open>NameError\<close>.
\<close>

definition require ::
  "builder \<Rightarrow> env \<Rightarrow> qfile \<Rightarrow> string \<Rightarrow> string \<Rightarrow> (qfile \<times> string) action" where
  "require B e f import_path import_as s =
     (if startswith import_path ''./'' \<or> startswith import_path ''../''
      then require_local B e f import_path import_as s
      else if contains ''.js'' import_path
      then (Inl (NameError ''module_name''), s)
      else
        and_then (require_npm B e f import_path import_as) (\<lambda>(f1, r1).
        and_then (case r1 of None \<Rightarrow> require_qpm f1 import_path import_as
                  | Some x \<Rightarrow> ret (f1, r1)) (\<lambda>(f2, r2).
        and_then (case r2 of None \<Rightarrow> require_qml e f2 import_path import_as
                  | Some x \<Rightarrow> ret (f2, r2)) (\<lambda>(f3, r3) s3.
          (case r3 of
             Some x \<Rightarrow> (Inr (f3, x), s3)
           | None \<Rightarrow>
               if mtime s3 (path_join (dirname f3) [import_path @ ''.js'']) \<noteq> None
               then (Inl (NameError ''module_name''), s3)
               else (Inl (NameError ''module_name''), s3))))) s)"

text \<open>
  \<^verbatim>\<open>QMLifyFile.replace_require(match)\<close>: a match of \<^verbatim>\<open>require_as\<close> has two
  groups, the name and the specifier, a match of the others has the specifier only.
\<close>

definition replace_require ::
  "builder \<Rightarrow> env \<Rightarrow> string option \<times> string \<Rightarrow> qfile \<Rightarrow> (qfile \<times> string) action" where
  "replace_require B e m f s =
     (case m of
        (Some name, import_path) \<Rightarrow>
          (case name of
             [] \<Rightarrow> (Inl IndexError, s)
           | c # cs \<Rightarrow>
               and_then (require B e f import_path
                           (if c = CHR ''_'' then ''QML'' @ name else ''QML_'' @ name))
                 (\<lambda>(f1, r). ret (f1, ''var '' @ name @ '' = '' @ r @ '';'' @ nl)) s)
      | (None, import_path) \<Rightarrow> require B e f import_path (module_var import_path) s)"

text \<open>
  \<^verbatim>\<open>QMLifyFile.build_imports\<close>: the substitution of \<^verbatim>\<open>require_as\<close>, the loop
  over the matches of \<^verbatim>\<open>require_effects\<close>, and the substitution of
  \<^verbatim>\<open>require\<close>; the substitutions in between change the text only.
\<close>

definition build_imports :: "builder \<Rightarrow> env \<Rightarrow> source \<Rightarrow> qfile \<Rightarrow> qfile action" where
  "build_imports B e src f =
     and_then (for_each (\<lambda>m f'. and_then (replace_require B e m f') (\<lambda>(f1, r). ret f1))
                 (map (\<lambda>(name, p). (Some name, p)) (src_require_as src)) f) (\<lambda>f1.
     and_then (for_each (\<lambda>m f'. and_then (replace_require B e m f') (\<lambda>(f1, r). ret f1))
                 (map (\<lambda>p. (None, p)) (src_require_effects src)) f1) (\<lambda>f2.
       for_each (\<lambda>m f'. and_then (replace_require B e m f') (\<lambda>(f1, r). ret f1))
         (map (\<lambda>p. (None, p)) (src_require src)) f2))"

subsection \<open>Building a file\<close>

text \<open>\<^verbatim>\<open>QMLifyFile.babelify\<close>, or reading the file.\<close>

definition read_source :: "env \<Rightarrow> qfile \<Rightarrow> error + source" where
  "read_source e f =
     (case sources e (use_babel f) (filename f) of
        None \<Rightarrow> Inl (if use_babel f then CalledProcessError (filename f)
                     else FileNotFoundError (filename f))
      | Some src \<Rightarrow> Inr src)"

text \<open>
  The body of \<^verbatim>\<open>QMLifyFile.build\<close>, with the builder for the nested builds, in
  three parts. The text of the output is not modelled, only that the output is written.
  \<open>begin_rewrite\<close> is the part between reading the text and \<^verbatim>\<open>build_imports\<close>:
  the globals of the text, the fresh header, prologue and footer, and the polyfills.
\<close>

definition begin_rewrite :: "session \<Rightarrow> source \<Rightarrow> qfile \<Rightarrow> qfile" where
  "begin_rewrite s src f =
     (let f1 = f\<lparr> globals := set_union (globals f) (pyset (src_globals src)) \<rparr>;
          f2 = f1\<lparr> header := ''.pragma library'' @ nl,
                   post_header := post_header_format (basename f1) @ nl,
                   footer := [] \<rparr>
      in if use_polyfills s then add_polyfills f2 else f2)"

text \<open>
  \<open>finish_rewrite\<close> is the part after \<^verbatim>\<open>build_imports\<close> and \<^verbatim>\<open>fix_exports\<close>
  (which changes the text only): the globals are exported, the header is completed, the
  output is written, the file is put into the registry, and the two caches are saved.
\<close>

definition finish_rewrite :: "env \<Rightarrow> qfile \<Rightarrow> qfile action" where
  "finish_rewrite e f s =
     (let f1 = export_globals f;
          f2 = f1\<lparr> header := header f1 @ nl @ strip (post_header f1) @ nl \<rparr>;
          s1 = s\<lparr> mtime := (mtime s)(out_filename f2 \<mapsto> write_time e (out_filename f2)) \<rparr>;
          s2 = s1\<lparr> files := (files s1)(filename f2 \<mapsto> f2) \<rparr>
      in and_then (QMLifyFile_save_cache e f2) (\<lambda>u.
         and_then (QMLify_save_cache e) (\<lambda>u. ret f2)) s2)"

definition build_with :: "builder \<Rightarrow> env \<Rightarrow> qfile \<Rightarrow> qfile action" where
  "build_with B e f s =
     (case needs_build e s f of
        Inl err \<Rightarrow> (Inl err, s)
      | Inr False \<Rightarrow>
          (if endswith (filename f) ''.js'' then QMLifyFile_load_cache e f s else (Inr f, s))
      | Inr True \<Rightarrow>
          (let s1 = s\<lparr> stdout := stdout s @ ['' - '' @ filename f] \<rparr> in
           if mtime s1 (out_dirname f) = None \<and> out_dirname f = []
           then (Inl (FileNotFoundError (out_dirname f)), s1)
           else
             (let s2 = (if mtime s1 (out_dirname f) = None
                        then s1\<lparr> mtime := (mtime s1)(out_dirname f \<mapsto>
                                             write_time e (out_dirname f)) \<rparr>
                        else s1)
              in if \<not> endswith (filename f) ''.js''
                 then (if mtime s2 (filename f) = None
                       then (Inl (FileNotFoundError (filename f)), s2)
                       else (Inr f, s2\<lparr> mtime := (mtime s2)(out_filename f \<mapsto>
                                                    write_time e (out_filename f)) \<rparr>))
                 else
                   (case read_source e f of
                      Inl err \<Rightarrow> (Inl err, s2)
                    | Inr src \<Rightarrow>
                        and_then (build_imports B e src (begin_rewrite s2 src f))
                          (finish_rewrite e) s2))))"

text \<open>\<^verbatim>\<open>QMLifyFile.build\<close>, with the recursion depth that is left.\<close>

fun build :: "env \<Rightarrow> nat \<Rightarrow> qfile \<Rightarrow> qfile action" where
  "build e 0 f s = (Inl RecursionError, s)"
| "build e (Suc depth) f s = build_with (build e depth) e f s"


subsection \<open>A small project\<close>

text \<open>
  The project \<^verbatim>\<open>/w\<close> holds \<^verbatim>\<open>src/a.js\<close>, which requires \<^verbatim>\<open>./foo\<close> twice, and
  \<^verbatim>\<open>src/foo.js\<close>, which reads \<^verbatim>\<open>global.bar\<close>. Nothing is built yet, and there is no
  cache file.
\<close>

definition project_env :: env where
  "project_env =
     \<lparr> cwd = ''/w'', script = ''/opt/qmlify.py'', recursion_limit = 1000,
       available_modules = Map.empty,
       sources = (\<lambda>babel.
         [''src/a.js'' \<mapsto> \<lparr> src_globals = [], src_require_as = [], src_require_effects = [],
                             src_require = [''./foo'', ''./foo''] \<rparr>,
          ''src/foo.js'' \<mapsto> \<lparr> src_globals = [''bar''], src_require_as = [],
                               src_require_effects = [], src_require = [] \<rparr>]),
       package_json = Map.empty,
       write_time = (\<lambda>p. 100) \<rparr>"

definition project_session :: session where
  "project_session =
     \<lparr> s_build_dir = ''/w/build'', use_polyfills = False, s_use_babel = False,
       dependency_map = Map.empty, modules = Map.empty, s_base_dir = ''/w'',
       files = Map.empty, package_info = Map.empty, cache = Map.empty,
       mtime = [''src/a.js'' \<mapsto> 10, ''src/foo.js'' \<mapsto> 5, ''/opt/qmlify.py'' \<mapsto> 1],
       cache_doc = YamlInvalid, stdout = [] \<rparr>"

text \<open>The build units of the two files, as \<open>QMLifyFile\<close> makes them.\<close>

definition project_a :: qfile where
  "project_a =
     \<lparr> filename = ''src/a.js'', base_dir = ''src'', dependencies = [], globals = [],
       imported_globals = [], dirname = ''src'', basename = ''a.js'', rel_filename = ''a.js'',
       use_babel = False, build_dir = ''/w/build'', out_filename = ''/w/build/a.js'',
       out_dirname = ''/w/build'', header = [], post_header = [], footer = [] \<rparr>"

definition project_foo :: qfile where
  "project_foo =
     \<lparr> filename = ''src/foo.js'', base_dir = ''src'', dependencies = [], globals = [],
       imported_globals = [], dirname = ''/w/src'', basename = ''foo.js'',
       rel_filename = ''foo.js'', use_babel = False, build_dir = ''/w/build'',
       out_filename = ''/w/build/foo.js'', out_dirname = ''/w/build'', header = [],
       post_header = [], footer = [] \<rparr>"



section \<open>Properties\<close>

subsection \<open>Cycle detection\<close>

lemma check_fuel_mono:
  "check_dependency k m n t c \<noteq> Inl RecursionError \<Longrightarrow>
     check_dependency (k + j) m n t c = check_dependency k m n t c"
  "check_deps k m t ch ds \<noteq> Inl RecursionError \<Longrightarrow>
     check_deps (k + j) m t ch ds = check_deps k m t ch ds"
proof (induction k m n t c and k m t ch ds rule: check_dependency_check_deps.induct)
  case (1 m name target chain)
  then show ?case by simp
next
  case (2 depth m name target chain)
  then show ?case by (auto split: option.splits)
next
  case (3 depth m target chain)
  then show ?case by simp
next
  case (4 depth m target chain dep rest)
  show ?case
  proof (cases "dep = target")
    case True
    then show ?thesis by simp
  next
    case False
    show ?thesis
    proof (cases "check_dependency depth m dep target (Some (chain @ [dep]))")
      case (Inl e)
      with False "4.prems" have "e \<noteq> RecursionError" by auto
      with Inl False "4.IH"(1)[OF refl False] show ?thesis by simp
    next
      case (Inr u)
      with False "4.prems" have "check_deps depth m target chain rest \<noteq> Inl RecursionError"
        by simp
      with Inr False "4.IH"(1)[OF refl False] "4.IH"(2)[OF refl False Inr] show ?thesis
        by simp
    qed
  qed
qed

lemma walk_trancl: "walk m x p \<Longrightarrow> p \<noteq> [] \<Longrightarrow> (x, last p) \<in> (edges m)\<^sup>+"
proof (induction p arbitrary: x)
  case Nil
  then show ?case by simp
next
  case (Cons y ys)
  from Cons.prems have e: "(x, y) \<in> edges m" by (auto simp: edges_def split: option.splits)
  show ?case
  proof (cases ys)
    case Nil
    with e show ?thesis by auto
  next
    case (Cons z zs)
    with Cons.IH[of y] Cons.prems have "(y, last ys) \<in> (edges m)\<^sup>+" by simp
    with e Cons show ?thesis by (simp add: trancl_into_trancl2)
  qed
qed

text \<open>A chain the check raises extends the chain it was given by a walk to the target.\<close>

lemma check_cycle_chain:
  "check_dependency k m n t c = Inl (DependencyCycle ch) \<Longrightarrow>
     \<exists>p. ch = (case c of None \<Rightarrow> [t, n] | Some c' \<Rightarrow> c') @ p \<and> p \<noteq> [] \<and> last p = t \<and>
         walk m n p"
  "check_deps k m t c0 ds = Inl (DependencyCycle ch) \<Longrightarrow>
     \<exists>p. ch = c0 @ p \<and> p \<noteq> [] \<and> last p = t \<and> hd p \<in> set ds \<and> walk m (hd p) (tl p)"
proof (induction k m n t c and k m t c0 ds arbitrary: ch and ch
    rule: check_dependency_check_deps.induct)
  case (1 m name target chain)
  then show ?case by simp
next
  case (2 depth m name target chain)
  from "2.prems" obtain ds where ds: "m name = Some ds"
    and r: "check_deps depth m target (case chain of None \<Rightarrow> [target, name] | Some c \<Rightarrow> c) ds
              = Inl (DependencyCycle ch)"
    by (auto split: option.splits)
  from "2.IH"[OF ds r] obtain p where
    p: "ch = (case chain of None \<Rightarrow> [target, name] | Some c \<Rightarrow> c) @ p" "p \<noteq> []"
       "last p = target" "hd p \<in> set ds" "walk m (hd p) (tl p)" by auto
  from p(2) obtain y ys where "p = y # ys" by (cases p) auto
  with p ds have "walk m name p" by simp
  with p show ?case by blast
next
  case (3 depth m target chain)
  then show ?case by simp
next
  case (4 depth m target chain dep rest)
  show ?case
  proof (cases "dep = target")
    case True
    with "4.prems" have "ch = chain @ [dep]" by simp
    with True show ?thesis by (auto intro!: exI[of _ "[dep]"])
  next
    case False
    show ?thesis
    proof (cases "check_dependency depth m dep target (Some (chain @ [dep]))")
      case (Inl e)
      with False "4.prems" have "e = DependencyCycle ch" by simp
      with Inl "4.IH"(1)[OF refl False, of ch] obtain p where
        p: "ch = (chain @ [dep]) @ p" "p \<noteq> []" "last p = target" "walk m dep p" by auto
      then show ?thesis by (intro exI[of _ "dep # p"]) auto
    next
      case (Inr u)
      with False "4.prems" have "check_deps depth m target chain rest = Inl (DependencyCycle ch)"
        by simp
      from "4.IH"(2)[OF refl False Inr this] obtain p where
        p: "ch = chain @ p" "p \<noteq> []" "last p = target" "hd p \<in> set rest"
           "walk m (hd p) (tl p)" by auto
      then show ?thesis by (intro exI[of _ p]) auto
    qed
  qed
qed

lemma edges_succs: "(x, y) \<in> edges m \<longleftrightarrow> y \<in> succs m x"
  by (auto simp: edges_def succs_def split: option.splits)

lemma trancl_first_step:
  "(n, t) \<in> (edges m)\<^sup>+ \<longleftrightarrow> (\<exists>d \<in> succs m n. d = t \<or> (d, t) \<in> (edges m)\<^sup>+)"
proof
  assume "(n, t) \<in> (edges m)\<^sup>+"
  then show "\<exists>d \<in> succs m n. d = t \<or> (d, t) \<in> (edges m)\<^sup>+"
    by (induction rule: converse_trancl_induct) (auto simp: edges_succs)
next
  assume "\<exists>d \<in> succs m n. d = t \<or> (d, t) \<in> (edges m)\<^sup>+"
  then show "(n, t) \<in> (edges m)\<^sup>+"
    by (auto simp: edges_succs[symmetric] intro: trancl_into_trancl2)
qed

text \<open>
  The loop over a dependency list settles, from some depth on, on one result, when the
  check of each of its entries does: a chain when an entry is the target or leads to it,
  a normal return otherwise.
\<close>

lemma check_deps_total:
  assumes IH: "\<And>d c. d \<in> set ds \<Longrightarrow> d \<noteq> t \<Longrightarrow>
          \<exists>N r. (\<forall>k\<ge>N. check_dependency k m d t c = r) \<and>
                ((d, t) \<in> (edges m)\<^sup>+ \<longrightarrow> (\<exists>ch. r = Inl (DependencyCycle ch))) \<and>
                ((d, t) \<notin> (edges m)\<^sup>+ \<longrightarrow> r = Inr ())"
  shows "\<exists>N r. (\<forall>k\<ge>N. check_deps k m t c0 ds = r) \<and>
           ((\<exists>d\<in>set ds. d = t \<or> (d, t) \<in> (edges m)\<^sup>+) \<longrightarrow>
              (\<exists>ch. r = Inl (DependencyCycle ch))) \<and>
           (\<not> (\<exists>d\<in>set ds. d = t \<or> (d, t) \<in> (edges m)\<^sup>+) \<longrightarrow> r = Inr ())"
  using IH
proof (induction ds)
  case Nil
  then show ?case by simp
next
  case (Cons dep rest)
  show ?case
  proof (cases "dep = t")
    case True
    then show ?thesis
      by (intro exI[of _ 0] exI[of _ "Inl (DependencyCycle (c0 @ [t]))"]) simp
  next
    case False
    from Cons.prems[of dep "Some (c0 @ [dep])"] False obtain N1 r1 where
      r1: "\<forall>k\<ge>N1. check_dependency k m dep t (Some (c0 @ [dep])) = r1"
          "(dep, t) \<in> (edges m)\<^sup>+ \<longrightarrow> (\<exists>ch. r1 = Inl (DependencyCycle ch))"
          "(dep, t) \<notin> (edges m)\<^sup>+ \<longrightarrow> r1 = Inr ()" by auto
    from Cons.IH Cons.prems obtain N2 r2 where
      r2: "\<forall>k\<ge>N2. check_deps k m t c0 rest = r2"
          "(\<exists>d\<in>set rest. d = t \<or> (d, t) \<in> (edges m)\<^sup>+) \<longrightarrow>
             (\<exists>ch. r2 = Inl (DependencyCycle ch))"
          "\<not> (\<exists>d\<in>set rest. d = t \<or> (d, t) \<in> (edges m)\<^sup>+) \<longrightarrow> r2 = Inr ()" by auto
    show ?thesis
    proof (cases "(dep, t) \<in> (edges m)\<^sup>+")
      case True
      with r1 obtain ch where "r1 = Inl (DependencyCycle ch)" by auto
      with r1(1) False
      have "\<forall>k\<ge>N1. check_deps k m t c0 (dep # rest) = Inl (DependencyCycle ch)"
        by simp
      with True show ?thesis
        by (intro exI[of _ N1] exI[of _ "Inl (DependencyCycle ch)"]) auto
    next
      case nopath: False
      with r1 have "r1 = Inr ()" by auto
      with r1(1) r2(1) False
      have "\<forall>k\<ge>max N1 N2. check_deps k m t c0 (dep # rest) = r2"
        by simp
      with nopath False r2(2,3) show ?thesis
        by (intro exI[of _ "max N1 N2"] exI[of _ r2]) auto
    qed
  qed
qed

text \<open>
  Where the calls of the traversal are well-founded on a set of nodes closed under
  successors, the check of each node of the set settles on one result, and that result
  says whether the target can be reached.
\<close>

lemma check_dependency_total:
  assumes wf: "wf (calls m t S)"
    and closed: "\<And>x d. x \<in> S \<Longrightarrow> d \<in> succs m x \<Longrightarrow> d \<in> S"
    and n: "n \<in> S"
  shows "\<exists>N r. (\<forall>k\<ge>N. check_dependency k m n t c = r) \<and>
           ((n, t) \<in> (edges m)\<^sup>+ \<longrightarrow> (\<exists>ch. r = Inl (DependencyCycle ch))) \<and>
           ((n, t) \<notin> (edges m)\<^sup>+ \<longrightarrow> r = Inr ())"
  using wf n
proof (induction n arbitrary: c rule: wf_induct_rule)
  case (less x)
  show ?case
  proof (cases "m x")
    case None
    then have "\<forall>k\<ge>1. check_dependency k m x t c = Inr ()"
      by (auto simp: Suc_le_eq gr0_conv_Suc)
    moreover from None have "(x, t) \<notin> (edges m)\<^sup>+"
      by (simp add: trancl_first_step[of x t m] succs_def)
    ultimately show ?thesis by blast
  next
    case (Some ds)
    define c0 where "c0 = (case c of None \<Rightarrow> [t, x] | Some c' \<Rightarrow> c')"
    have "\<exists>N r. (\<forall>k\<ge>N. check_deps k m t c0 ds = r) \<and>
           ((\<exists>d\<in>set ds. d = t \<or> (d, t) \<in> (edges m)\<^sup>+) \<longrightarrow>
              (\<exists>ch. r = Inl (DependencyCycle ch))) \<and>
           (\<not> (\<exists>d\<in>set ds. d = t \<or> (d, t) \<in> (edges m)\<^sup>+) \<longrightarrow> r = Inr ())"
    proof (rule check_deps_total)
      fix d c'
      assume d: "d \<in> set ds" "d \<noteq> t"
      with Some less.prems have "(d, x) \<in> calls m t S" by (simp add: calls_def succs_def)
      moreover from d Some less.prems closed[of x d] have "d \<in> S" by (simp add: succs_def)
      ultimately show "\<exists>N r. (\<forall>k\<ge>N. check_dependency k m d t c' = r) \<and>
                ((d, t) \<in> (edges m)\<^sup>+ \<longrightarrow> (\<exists>ch. r = Inl (DependencyCycle ch))) \<and>
                ((d, t) \<notin> (edges m)\<^sup>+ \<longrightarrow> r = Inr ())"
        by (rule less.IH)
    qed
    then obtain N r where
      r: "\<forall>k\<ge>N. check_deps k m t c0 ds = r"
         "(\<exists>d\<in>set ds. d = t \<or> (d, t) \<in> (edges m)\<^sup>+) \<longrightarrow> (\<exists>ch. r = Inl (DependencyCycle ch))"
         "\<not> (\<exists>d\<in>set ds. d = t \<or> (d, t) \<in> (edges m)\<^sup>+) \<longrightarrow> r = Inr ()" by blast
    have "\<forall>k\<ge>Suc N. check_dependency k m x t c = r"
    proof (intro allI impI)
      fix k assume "Suc N \<le> k"
      then obtain k' where "k = Suc k'" "N \<le> k'" by (cases k) auto
      with r(1) Some show "check_dependency k m x t c = r" by (simp add: c0_def)
    qed
    moreover have "(x, t) \<in> (edges m)\<^sup>+ \<longleftrightarrow> (\<exists>d\<in>set ds. d = t \<or> (d, t) \<in> (edges m)\<^sup>+)"
      using Some by (simp add: trancl_first_step[of x t m] succs_def)
    ultimately show ?thesis using r(2,3) by blast
  qed
qed

lemma finite_edges: "finite (dom m) \<Longrightarrow> finite (edges m)"
proof -
  assume f: "finite (dom m)"
  have "edges m \<subseteq> (\<Union>x\<in>dom m. {x} \<times> succs m x)"
    by (auto simp: edges_def succs_def)
  moreover have "finite (\<Union>x\<in>dom m. {x} \<times> succs m x)"
    using f by (auto simp: succs_def split: option.splits)
  ultimately show ?thesis by (rule finite_subset)
qed

lemma wf_calls:
  assumes fin: "finite (dom m)"
    and sub: "\<And>x y. (x, y) \<in> edges m \<Longrightarrow> x \<in> S \<Longrightarrow> y \<noteq> t \<Longrightarrow> (x, y) \<in> E"
    and E: "E \<subseteq> edges m"
    and acyc: "acyclic E"
  shows "wf (calls m t S)"
proof -
  have "finite E" by (rule finite_subset[OF E finite_edges[OF fin]])
  then have "wf (E\<inverse>)" using acyc by (rule finite_acyclic_wf_converse)
  moreover have "calls m t S \<subseteq> E\<inverse>" using sub by (auto simp: calls_def edges_succs)
  ultimately show ?thesis by (rule wf_subset)
qed

lemma register_dependency_eq:
  "register_dependency depth m f d =
     (check_dependency depth (inserted m f d) d f None, inserted m f d)"
  by (auto simp: register_dependency_def inserted_def Let_def split: option.splits)

lemma edges_inserted: "edges (inserted m f d) = insert (f, d) (edges m)"
  by (auto simp: edges_def inserted_def split: option.splits if_splits)

text \<open>
  After an insertion into a finite acyclic map the traversal for the key of the
  insertion is well-founded: it never follows an edge into its target.
\<close>

lemma wf_calls_inserted:
  assumes fin: "finite (dom m)" and acyc: "acyclic (edges m)"
  shows "wf (calls (inserted m f d) f UNIV)"
proof -
  define E0 where "E0 = edges m - (UNIV \<times> {f})"
  define E where "E = edges (inserted m f d) - (UNIV \<times> {f})"
  have a0: "acyclic E0" by (rule acyclic_subset[OF acyc]) (auto simp: E0_def)
  have "acyclic E"
  proof (cases "d = f")
    case True
    then have "E \<subseteq> E0" by (auto simp: E_def E0_def edges_inserted)
    with a0 show ?thesis by (rule acyclic_subset)
  next
    case False
    have "(d, f) \<notin> E0\<^sup>*"
    proof
      assume "(d, f) \<in> E0\<^sup>*"
      then show False using False by (cases rule: rtranclE) (auto simp: E0_def)
    qed
    with a0 have "acyclic (insert (f, d) E0)" by simp
    moreover have "E \<subseteq> insert (f, d) E0" by (auto simp: E_def E0_def edges_inserted)
    ultimately show ?thesis by (rule acyclic_subset)
  qed
  moreover have "finite (dom (inserted m f d))" using fin by (simp add: inserted_def)
  ultimately show ?thesis
    by (intro wf_calls[where E = E]) (auto simp: E_def)
qed

text \<open>
  Claim C10. For every finite dep map from which no cycle can be reached from the
  starting node, \<open>check_dependency\<close> terminates: from some recursion depth on it never
  runs out of depth, whatever the target and the chain it is given.
\<close>

theorem check_dependency_terminates:
  assumes fin: "finite (dom m)"
    and nocycle: "\<forall>x. (name, x) \<in> (edges m)\<^sup>* \<longrightarrow> (x, x) \<notin> (edges m)\<^sup>+"
  shows "\<exists>N. \<forall>depth\<ge>N. check_dependency depth m name target chain \<noteq> Inl RecursionError"
proof -
  define S where "S = (edges m)\<^sup>* `` {name}"
  define E where "E = edges m \<inter> (S \<times> UNIV)"
  have "acyclic E"
  proof (rule acyclicI, intro allI notI)
    fix x assume x: "(x, x) \<in> E\<^sup>+"
    have "E \<subseteq> edges m" by (simp add: E_def)
    then have "E\<^sup>+ \<subseteq> (edges m)\<^sup>+" by (rule trancl_mono_subset)
    with x have "(x, x) \<in> (edges m)\<^sup>+" by auto
    moreover from x obtain y where "(x, y) \<in> E" by (auto elim: converse_tranclE)
    then have "(name, x) \<in> (edges m)\<^sup>*" by (simp add: E_def S_def)
    ultimately show False using nocycle by auto
  qed
  then have "wf (calls m target S)"
    by (intro wf_calls[OF fin, where E = E]) (auto simp: E_def)
  moreover have "\<And>x d. x \<in> S \<Longrightarrow> d \<in> succs m x \<Longrightarrow> d \<in> S"
    by (auto simp: S_def edges_succs[symmetric] intro: rtrancl_into_rtrancl)
  moreover have "name \<in> S" by (simp add: S_def)
  ultimately obtain N r where
    r: "\<forall>k\<ge>N. check_dependency k m name target chain = r"
       "(name, target) \<in> (edges m)\<^sup>+ \<longrightarrow> (\<exists>ch. r = Inl (DependencyCycle ch))"
       "(name, target) \<notin> (edges m)\<^sup>+ \<longrightarrow> r = Inr ()"
    using check_dependency_total[of m target S name chain] by blast
  then have "r \<noteq> Inl RecursionError" by (cases "(name, target) \<in> (edges m)\<^sup>+") auto
  with r(1) show ?thesis by auto
qed

lemma edges_single: "edges [a \<mapsto> [b]] = {(a, b)}"
  by (auto simp: edges_def split: if_splits)

lemma acyclic_none: "acyclic ({} :: (path \<times> path) set)"
  unfolding acyclic_def by simp

lemma acyclic_single: "a \<noteq> b \<Longrightarrow> acyclic {(a, b) :: path \<times> path}"
  by (simp add: acyclic_none)

theorem check_dependency_terminates_witness:
  "finite (dom [''a.js'' \<mapsto> [''b.js'']]) \<and> acyclic (edges [''a.js'' \<mapsto> [''b.js'']]) \<and>
   (\<exists>N. \<forall>depth\<ge>N. check_dependency depth [''a.js'' \<mapsto> [''b.js'']] ''a.js'' ''c.js'' None
            \<noteq> Inl RecursionError)"
proof -
  have a: "acyclic (edges [''a.js'' \<mapsto> [''b.js'']])"
    by (simp add: edges_single acyclic_none)
  then have "\<forall>x. (''a.js'', x) \<in> (edges [''a.js'' \<mapsto> [''b.js'']])\<^sup>* \<longrightarrow>
                 (x, x) \<notin> (edges [''a.js'' \<mapsto> [''b.js'']])\<^sup>+"
    by (simp add: acyclic_def)
  from check_dependency_terminates[OF _ this, of "''c.js''" None] a show ?thesis by simp
qed

text \<open>
  Claim C1, as amended. Whatever the map and the recursion depth, a \<open>DependencyCycle\<close>
  that \<open>register_dependency\<close> raises carries a chain that begins and ends at the file of
  the insertion and walks along edges of the updated map, so that the dependency leads
  back to the file. When the map before the insertion is finite and acyclic, then from
  some recursion depth on \<open>register_dependency\<close> raises \<open>DependencyCycle\<close> if the
  dependency leads back to the file in the updated map, and returns normally if not.
\<close>

theorem register_dependency_cycle:
  "(fst (register_dependency depth m fname dep) = Inl (DependencyCycle ch) \<longrightarrow>
      hd ch = fname \<and> last ch = fname \<and>
      walk (snd (register_dependency depth m fname dep)) fname (tl ch) \<and>
      (dep, fname)
        \<in> (edges (snd (register_dependency depth m fname dep)))\<^sup>+) \<and>
   (finite (dom m) \<and> acyclic (edges m) \<longrightarrow>
      (\<exists>N. \<forall>depth'\<ge>N.
         ((dep, fname)
            \<in> (edges (snd (register_dependency depth' m fname dep)))\<^sup>+
            \<longrightarrow> (\<exists>ch'. fst (register_dependency depth' m fname dep)
                        = Inl (DependencyCycle ch'))) \<and>
         ((dep, fname)
            \<notin> (edges (snd (register_dependency depth' m fname dep)))\<^sup>+
            \<longrightarrow> fst (register_dependency depth' m fname dep) = Inr ())))"
proof (intro conjI impI)
  let ?m = "inserted m fname dep"
  assume "fst (register_dependency depth m fname dep) = Inl (DependencyCycle ch)"
  then have "check_dependency depth ?m dep fname None = Inl (DependencyCycle ch)"
    by (simp add: register_dependency_eq)
  from check_cycle_chain(1)[OF this] obtain p where
    p: "ch = [fname, dep] @ p" "p \<noteq> []" "last p = fname" "walk ?m dep p"
    by auto
  have e: "(fname, dep) \<in> edges ?m" by (simp add: edges_inserted)
  then have w: "walk ?m fname (dep # p)"
    using p(4) by (auto simp: edges_def)
  from walk_trancl[OF p(4) p(2)] p(3) have "(dep, fname) \<in> (edges ?m)\<^sup>+" by simp
  with p w show "hd ch = fname" "last ch = fname"
    "walk (snd (register_dependency depth m fname dep)) fname (tl ch)"
    "(dep, fname)
       \<in> (edges (snd (register_dependency depth m fname dep)))\<^sup>+"
    by (simp_all add: register_dependency_eq)
next
  let ?m = "inserted m fname dep"
  assume "finite (dom m) \<and> acyclic (edges m)"
  then have "wf (calls ?m fname UNIV)" by (simp add: wf_calls_inserted)
  from check_dependency_total[OF this, of dep None] obtain N r where
    r: "\<forall>k\<ge>N. check_dependency k ?m dep fname None = r"
       "(dep, fname) \<in> (edges ?m)\<^sup>+ \<longrightarrow> (\<exists>ch. r = Inl (DependencyCycle ch))"
       "(dep, fname) \<notin> (edges ?m)\<^sup>+ \<longrightarrow> r = Inr ()"
    by auto
  then show "\<exists>N. \<forall>depth'\<ge>N.
         ((dep, fname)
            \<in> (edges (snd (register_dependency depth' m fname dep)))\<^sup>+
            \<longrightarrow> (\<exists>ch'. fst (register_dependency depth' m fname dep)
                        = Inl (DependencyCycle ch'))) \<and>
         ((dep, fname)
            \<notin> (edges (snd (register_dependency depth' m fname dep)))\<^sup>+
            \<longrightarrow> fst (register_dependency depth' m fname dep) = Inr ())"
    by (intro exI[of _ N]) (simp add: register_dependency_eq)
qed

text \<open>
  The witness: \<^verbatim>\<open>b.js\<close> already depends on \<^verbatim>\<open>a.js\<close>, and \<^verbatim>\<open>a.js\<close> now requires
  \<^verbatim>\<open>b.js\<close>. The chain is \<^verbatim>\<open>[a.js, b.js, a.js]\<close>.
\<close>

theorem register_dependency_cycle_witness:
  "fst (register_dependency 3 [''b.js'' \<mapsto> [''a.js'']] ''a.js'' ''b.js'')
     = Inl (DependencyCycle [''a.js'', ''b.js'', ''a.js'']) \<and>
   finite (dom [''b.js'' \<mapsto> [''a.js'']]) \<and> acyclic (edges [''b.js'' \<mapsto> [''a.js'']]) \<and>
   (''b.js'', ''a.js'')
     \<in> (edges (snd (register_dependency 3 [''b.js'' \<mapsto> [''a.js'']] ''a.js'' ''b.js'')))\<^sup>+ \<and>
   walk (snd (register_dependency 3 [''b.js'' \<mapsto> [''a.js'']] ''a.js'' ''b.js'')) ''a.js''
     [''b.js'', ''a.js''] \<and>
   (\<exists>N. \<forall>depth'\<ge>N. \<exists>ch'.
      fst (register_dependency depth' [''b.js'' \<mapsto> [''a.js'']] ''a.js'' ''b.js'')
        = Inl (DependencyCycle ch'))"
proof -
  let ?m = "[''b.js'' \<mapsto> [''a.js'']]"
  have r: "fst (register_dependency 3 ?m ''a.js'' ''b.js'')
             = Inl (DependencyCycle [''a.js'', ''b.js'', ''a.js''])"
    by (simp add: register_dependency_def numeral_3_eq_3)
  have fa: "finite (dom ?m) \<and> acyclic (edges ?m)"
    by (simp add: edges_single acyclic_none)
  note t = register_dependency_cycle[of 3 ?m "''a.js''" "''b.js''" "[''a.js'', ''b.js'', ''a.js'']"]
  have "\<And>k. (''b.js'', ''a.js'') \<in> edges (snd (register_dependency k ?m ''a.js'' ''b.js''))"
    by (simp add: register_dependency_eq edges_inserted edges_single)
  then have p: "\<And>k. (''b.js'', ''a.js'')
     \<in> (edges (snd (register_dependency k ?m ''a.js'' ''b.js'')))\<^sup>+"
    by (rule r_into_trancl)
  from t r have w:
    "walk (snd (register_dependency 3 ?m ''a.js'' ''b.js'')) ''a.js'' [''b.js'', ''a.js'']"
    by simp
  from t fa obtain N where
    "\<forall>depth'\<ge>N. (''b.js'', ''a.js'')
            \<in> (edges (snd (register_dependency depth' ?m ''a.js'' ''b.js'')))\<^sup>+
            \<longrightarrow> (\<exists>ch'. fst (register_dependency depth' ?m ''a.js'' ''b.js'')
                        = Inl (DependencyCycle ch'))"
    by blast
  with p have "\<forall>depth'\<ge>N. \<exists>ch'.
      fst (register_dependency depth' ?m ''a.js'' ''b.js'') = Inl (DependencyCycle ch')"
    by blast
  with r fa p[of 3] w show ?thesis by blast
qed

text \<open>
  The claim as it stands, for every dep map, fails on a map with a cycle that
  does not pass through the file of the insertion: \<^verbatim>\<open>b.js\<close> leads back to
  \<^verbatim>\<open>a.js\<close>, but the traversal enters the loop at \<^verbatim>\<open>c.js\<close> first and never
  leaves it, so at every recursion depth the outcome is \<open>RecursionError\<close>.
\<close>

lemma check_dependency_self_loop:
  "m d = Some [d] \<Longrightarrow> d \<noteq> t \<Longrightarrow> check_dependency depth m d t chain = Inl RecursionError"
  by (induction depth arbitrary: chain) simp_all

theorem register_dependency_cycle_counterexample:
  "\<forall>depth.
     fst (register_dependency depth [''b.js'' \<mapsto> [''c.js'', ''a.js''], ''c.js'' \<mapsto> [''c.js'']]
            ''a.js'' ''b.js'') = Inl RecursionError \<and>
     (''b.js'', ''a.js'')
       \<in> (edges (snd (register_dependency depth
                         [''b.js'' \<mapsto> [''c.js'', ''a.js''], ''c.js'' \<mapsto> [''c.js'']]
                         ''a.js'' ''b.js'')))\<^sup>+"
proof (intro allI conjI)
  fix depth
  let ?old = "[''b.js'' \<mapsto> [''c.js'', ''a.js''], ''c.js'' \<mapsto> [''c.js'']]"
  let ?m = "inserted ?old ''a.js'' ''b.js''"
  have c: "\<And>k chain. check_dependency k ?m ''c.js'' ''a.js'' chain = Inl RecursionError"
    by (rule check_dependency_self_loop) (simp_all add: inserted_def)
  have "check_dependency depth ?m ''b.js'' ''a.js'' None = Inl RecursionError"
  proof (cases depth)
    case 0
    then show ?thesis by simp
  next
    case (Suc k)
    have "?m ''b.js'' = Some [''c.js'', ''a.js'']" by (simp add: inserted_def)
    with Suc c show ?thesis by simp
  qed
  then show "fst (register_dependency depth ?old ''a.js'' ''b.js'') = Inl RecursionError"
    by (simp add: register_dependency_eq)
  have "(''b.js'', ''a.js'') \<in> edges ?m"
    by (simp add: edges_inserted) (simp add: edges_def)
  then show "(''b.js'', ''a.js'')
       \<in> (edges (snd (register_dependency depth ?old ''a.js'' ''b.js'')))\<^sup>+"
    by (simp add: register_dependency_eq)
qed

subsection \<open>Namespace identifiers\<close>

text \<open>The loop runs at most once: its first round leaves a string that starts with
  \<^verbatim>\<open>_\<close>.\<close>

lemma module_var_loop_once:
  "module_var_loop p = (if startswith p ''../'' then CHR ''_'' # drop 2 p else p)"
proof -
  have "\<not> startswith (CHR ''_'' # drop 2 p) ''../''" by (simp add: startswith_def)
  then have "module_var_loop (CHR ''_'' # drop 2 p) = CHR ''_'' # drop 2 p"
    by (subst module_var_loop.simps) simp
  then show ?thesis by (subst module_var_loop.simps) simp
qed

lemma replace_chars:
  "replace_char CHR ''-'' CHR ''_'' (replace_char CHR ''.'' CHR ''_''
     (replace_char CHR ''/'' CHR ''_'' s))
   = map (\<lambda>c. if c \<in> {CHR ''/'', CHR ''.'', CHR ''-''} then CHR ''_'' else c) s"
  by (induction s) (auto simp: replace_char_def)

text \<open>
  Claim C8. On a specifier with two leading \<^verbatim>\<open>../\<close> the loop of \<open>module_var\<close>
  runs once only, since its first round leaves a string that starts with \<^verbatim>\<open>_\<close>: the
  second \<^verbatim>\<open>../\<close> is not converted into a \<^verbatim>\<open>_\<close> segment but replaced character
  by character, and the identifier differs from the one the specification describes.
\<close>

theorem module_var_two_parents:
  "module_var ''../../x'' = ''QML______x'' \<and> module_var_spec ''../../x'' = ''QML_____x''"
  by (simp add: module_var_def module_var_spec_def module_var_loop_once startswith_def
      replace_char_def)

text \<open>With at most one leading \<^verbatim>\<open>../\<close> the two agree.\<close>

lemma convert_parents_id: "\<not> startswith p ''../'' \<Longrightarrow> convert_parents p = p"
  by (induction p rule: convert_parents.induct) (auto simp: startswith_def)

lemma module_var_one_parent:
  assumes "\<not> startswith (if startswith p ''./'' then drop 2 p else p) ''../../''"
  shows "module_var p = module_var_spec p"
proof -
  define q where "q = (if startswith p ''./'' then drop 2 p else p)"
  have "map (\<lambda>c. if c \<in> {CHR ''/'', CHR ''.'', CHR ''-''} then CHR ''_'' else c)
          (module_var_loop q)
        = map (\<lambda>c. if c \<in> {CHR ''/'', CHR ''.'', CHR ''-''} then CHR ''_'' else c)
          (convert_parents q)"
  proof (cases "startswith q ''../''")
    case False
    then show ?thesis by (simp add: module_var_loop_once convert_parents_id)
  next
    case True
    then obtain rest where q: "q = ''../'' @ rest"
      by (metis append_take_drop_id startswith_def)
    from assms have "\<not> startswith q ''../../''" by (simp add: q_def)
    with q have "\<not> startswith rest ''../''"
      by (auto simp: startswith_def)
    then have "convert_parents q = ''_/'' @ rest"
      using q by (simp add: convert_parents_id)
    with True q show ?thesis by (simp add: module_var_loop_once)
  qed
  then show ?thesis
    by (simp add: module_var_def module_var_spec_def replace_chars q_def Let_def)
qed

subsection \<open>The small project\<close>

lemmas path_defs = relpath_def abspath_def path_join_def join2_def normpath_def isabs_def
  startswith_def endswith_def initial_slashes_def norm_step_def path_dirname_def
  path_basename_def Let_def


subsection \<open>The module resolver\<close>

text \<open>
  Claim C4. A relative specifier that contains \<^verbatim>\<open>.js\<close> fails with the exception that
  tells to leave the extension out, and it fails before anything has changed: the
  session that is left is the session that was given, with its dependency map, and the
  result does not depend on the builder, which is never started.
\<close>

theorem require_js_suffix:
  assumes "startswith p ''./'' \<or> startswith p ''../''" and "contains ''.js'' p"
  shows "require B e f p import_as s =
           (Inl (Exception (''Don'' @ sq @ ''t include the .js file extension when ''
                            @ ''importing/requiring: '' @ p)), s)
         \<and> require_local B e f p import_as s = require B e f p import_as s"
  using assms by (simp add: require_def require_local_def)

theorem require_js_suffix_witness:
  "(startswith ''./foo.js'' ''./'' \<or> startswith ''./foo.js'' ''../'') \<and>
   contains ''.js'' ''./foo.js'' \<and>
   require (build project_env 1) project_env project_a ''./foo.js'' ''QML_foo'' project_session =
     (Inl (Exception (''Don'' @ sq @ ''t include the .js file extension when ''
                      @ ''importing/requiring: ./foo.js'')), project_session)"
proof -
  have a: "startswith ''./foo.js'' ''./'' \<or> startswith ''./foo.js'' ''../''"
    by (simp add: startswith_def)
  have b: "contains ''.js'' ''./foo.js''" by (simp add: startswith_def)
  from require_js_suffix[OF a b, of "build project_env 1" project_env project_a "''QML_foo''"
      project_session] a b
  show ?thesis by simp
qed

text \<open>
  Claim C7. In the small project \<^verbatim>\<open>lodash\<close> is no package, no registered module and
  no local file; \<^verbatim>\<open>foo\<close> is none of the first two, but \<^verbatim>\<open>src/foo.js\<close> exists;
  \<^verbatim>\<open>foo.js\<close> is not relative and carries the suffix. In all three cases
  \<open>require\<close> raises \<^verbatim>\<open>NameError\<close> for \<^verbatim>\<open>module_name\<close>, not an exception whose
  message names the specifier.
\<close>

theorem require_unresolved_name_error:
  "require (build project_env 1) project_env project_a ''lodash'' ''QML_lodash'' project_session
     = (Inl (NameError ''module_name''), project_session) \<and>
   require (build project_env 1) project_env project_a ''foo'' ''QML_foo'' project_session
     = (Inl (NameError ''module_name''), project_session) \<and>
   mtime project_session (path_join (dirname project_a) [''foo'' @ ''.js'']) \<noteq> None \<and>
   require (build project_env 1) project_env project_a ''foo.js'' ''QML_foo'' project_session
     = (Inl (NameError ''module_name''), project_session)"
  by (simp add: require_def require_npm_def require_qpm_def require_qml_def and_then_def ret_def
      find_module_def NPMModule_init_def NPMModule_exists_def NPMModule_src_dirname_def
      project_env_def project_session_def project_a_def path_defs)

text \<open>Whatever the project, a specifier that is not relative and that no strategy
  resolves ends in that \<^verbatim>\<open>NameError\<close>.\<close>

lemma require_unresolved:
  assumes "\<not> startswith p ''./''" "\<not> startswith p ''../''" "\<not> contains ''.js'' p"
    and "require_npm B e f p import_as s = (Inr (f1, None), s1)"
    and "require_qml e f1 p import_as s1 = (Inr (f2, None), s2)"
  shows "require B e f p import_as s = (Inl (NameError ''module_name''), s2)"
  using assms by (simp add: require_def require_qpm_def and_then_def)

subsection \<open>Staleness and the cache\<close>






subsection \<open>What a require does to the file and to the dependency map\<close>



lemma add_dependency_Inl:
  assumes "add_dependency e f dep import_as s = (Inl err, s')"
  shows "s' = s\<lparr> dependency_map :=
                   inserted (dependency_map s) (out_filename f) (dep_name dep) \<rparr>"
  using assms
  by (auto simp: add_dependency_def Let_def register_dependency_eq
      split: dependency.splits sum.splits)















subsection \<open>Requiring a file twice\<close>


lemmas build_defs = build_with_def needs_build_def read_source_def build_imports_def
  begin_rewrite_def finish_rewrite_def replace_require_def require_def require_local_def
  add_dependency_def dep_name_def register_dependency_def QMLifyFile_def
  QMLifyFile_save_cache_def QMLifyFile_load_cache_def QMLify_save_cache_def
  export_globals_def import_line_def and_then_def ret_def set_union_def pyset_def
  module_var_def module_var_loop_once replace_char_def

lemmas project_defs = project_env_def project_session_def project_a_def project_foo_def



subsection \<open>Paths\<close>

text \<open>Splitting at the separator and joining with it.\<close>


lemma split_on_nonempty: "split_on c s \<noteq> []"
  by (induction s) (auto split: list.splits)

lemma split_on_append_sep: "split_on c (a @ c # b) = split_on c a @ split_on c b"
proof (induction a)
  case Nil
  then show ?case by simp
next
  case (Cons x a)
  obtain w ws where "split_on c a = w # ws"
    using split_on_nonempty[of c a] by (cases "split_on c a") auto
  with Cons show ?case by (auto split: list.splits)
qed

lemma split_on_no_sep: "w \<in> set (split_on c s) \<Longrightarrow> c \<notin> set w"
proof (induction s arbitrary: w)
  case Nil
  then show ?case by simp
next
  case (Cons x s)
  obtain v vs where v: "split_on c s = v # vs"
    using split_on_nonempty[of c s] by (cases "split_on c s") auto
  with Cons show ?case by (auto split: if_splits)
qed

lemma split_on_plain: "c \<notin> set w \<Longrightarrow> split_on c w = [w]"
  by (induction w) auto

lemma join_sep_Cons: "join_sep (x # xs) = x @ concat (map (\<lambda>y. CHR ''/'' # y) xs)"
  by (induction xs arbitrary: x) auto

lemma split_join_sep:
  "cs \<noteq> [] \<Longrightarrow> \<forall>w\<in>set cs. CHR ''/'' \<notin> set w \<Longrightarrow> split_sep (join_sep cs) = cs"
proof (induction cs rule: join_sep.induct)
  case 1
  then show ?case by simp
next
  case (2 x)
  then show ?case by (simp add: split_on_plain)
next
  case (3 x y ys)
  then have "split_sep (join_sep (y # ys)) = y # ys" by simp
  moreover have "join_sep (x # y # ys) = x @ CHR ''/'' # join_sep (y # ys)" by simp
  ultimately show ?case using 3 by (simp only: split_on_append_sep) (simp add: split_on_plain)
qed

lemma endswith_slash: "endswith a ''/'' \<longleftrightarrow> a \<noteq> [] \<and> last a = CHR ''/''"
  by (cases a rule: rev_cases) (auto simp: endswith_def)

lemma path_join_comps:
  assumes "a \<noteq> []" "last a \<noteq> CHR ''/''"
    and "\<forall>w\<in>set rs. w \<noteq> [] \<and> CHR ''/'' \<notin> set w"
  shows "path_join a rs = a @ concat (map (\<lambda>y. CHR ''/'' # y) rs)"
  using assms
proof (induction rs arbitrary: a)
  case Nil
  then show ?case by (simp add: path_join_def)
next
  case (Cons r rs)
  from Cons.prems have r: "r \<noteq> []" "CHR ''/'' \<notin> set r" by auto
  then have "hd r \<noteq> CHR ''/''" by (cases r) auto
  with r have ns: "\<not> startswith r ''/''" by (cases r) (auto simp: startswith_def)
  from Cons.prems have ne: "\<not> endswith a ''/''" by (simp add: endswith_slash)
  have lr: "last r \<noteq> CHR ''/''" using r by (metis last_in_set)
  have j: "join2 a r = a @ CHR ''/'' # r"
    using ns ne Cons.prems(1) by (simp add: join2_def)
  have "path_join a (r # rs) = path_join (join2 a r) rs" by (simp add: path_join_def)
  also have "\<dots> = (a @ CHR ''/'' # r) @ concat (map (\<lambda>y. CHR ''/'' # y) rs)"
    unfolding j using Cons.prems r lr by (intro Cons.IH) auto
  finally show ?case by simp
qed


lemma norm_step_skip [simp]:
  "norm_step k st [] = st" "norm_step k st ''.'' = st"
  by (simp_all add: norm_step_def)

lemma norm_step_push: "w \<noteq> [] \<Longrightarrow> w \<noteq> ''.'' \<Longrightarrow> w \<noteq> ''..'' \<Longrightarrow> norm_step k st w = st @ [w]"
  by (simp add: norm_step_def)

lemma clean_last: "clean st \<Longrightarrow> st \<noteq> [] \<Longrightarrow> last st \<noteq> ''..''"
  using last_in_set[of st] by (auto simp: clean_def)

lemma norm_step_pop: "0 < k \<Longrightarrow> clean st \<Longrightarrow> norm_step k st ''..'' = butlast st"
  by (cases "st = []") (auto simp: norm_step_def dest: clean_last)

lemma clean_butlast: "clean st \<Longrightarrow> clean (butlast st)"
  by (auto simp: clean_def dest: in_set_butlastD)

lemma clean_append: "clean (xs @ ys) \<longleftrightarrow> clean xs \<and> clean ys"
  by (auto simp: clean_def)

lemma clean_step:
  "0 < k \<Longrightarrow> clean st \<Longrightarrow> CHR ''/'' \<notin> set w \<Longrightarrow> clean (norm_step k st w)"
proof -
  assume k: "0 < k" and st: "clean st" and w: "CHR ''/'' \<notin> set w"
  consider "w = [] \<or> w = ''.''" | "w = ''..''" | "w \<noteq> []" "w \<noteq> ''.''" "w \<noteq> ''..''" by blast
  then show ?thesis
  proof cases
    case 1
    with st show ?thesis by auto
  next
    case 2
    with k st show ?thesis by (simp add: norm_step_pop clean_butlast)
  next
    case 3
    with st w show ?thesis by (simp add: norm_step_push clean_append) (simp add: clean_def)
  qed
qed

lemma clean_fold:
  "0 < k \<Longrightarrow> clean st \<Longrightarrow> \<forall>w\<in>set ws. CHR ''/'' \<notin> set w \<Longrightarrow>
     clean (foldl (norm_step k) st ws)"
  by (induction ws arbitrary: st) (auto simp: clean_step)

lemma fold_clean: "clean ws \<Longrightarrow> foldl (norm_step k) st ws = st @ ws"
proof (induction ws arbitrary: st)
  case Nil
  then show ?case by simp
next
  case (Cons w ws)
  then have "norm_step k st w = st @ [w]" by (simp add: norm_step_push clean_def)
  with Cons show ?case by (simp add: clean_def)
qed

lemma fold_parents:
  "0 < k \<Longrightarrow> clean st \<Longrightarrow>
     foldl (norm_step k) st (replicate n ''..'') = take (length st - n) st"
proof (induction n arbitrary: st)
  case 0
  then show ?case by simp
next
  case (Suc n)
  then have "foldl (norm_step k) st (replicate (Suc n) ''..'')
               = foldl (norm_step k) (butlast st) (replicate n ''..'')"
    by (simp add: norm_step_pop)
  also have "\<dots> = take (length (butlast st) - n) (butlast st)"
    using Suc.prems by (intro Suc.IH) (auto simp: clean_butlast)
  also have "\<dots> = take (length st - Suc n) st"
    by (simp add: butlast_conv_take min_def)
  finally show ?case .
qed

lemma common_prefix_take:
  "common_prefix xs ys \<le> length xs \<and> take (common_prefix xs ys) xs = take (common_prefix xs ys) ys"
  by (induction xs ys rule: common_prefix.induct) auto


lemma isabs_Cons: "isabs p \<longleftrightarrow> (\<exists>p'. p = CHR ''/'' # p')"
  by (cases p) (auto simp: isabs_def startswith_def)

lemma not_startswith_slash: "\<not> startswith b ''/'' \<longleftrightarrow> (b = [] \<or> hd b \<noteq> CHR ''/'')"
  by (cases b) (auto simp: startswith_def)

lemma join2_rel:
  "\<not> startswith b ''/'' \<Longrightarrow>
     join2 a b = (if a = [] \<or> last a = CHR ''/'' then a @ b else a @ CHR ''/'' # b)"
  by (auto simp: join2_def endswith_slash)

lemma initial_slashes_join2:
  assumes "isabs a" "\<not> startswith b ''/''"
  shows "initial_slashes (join2 a b) = initial_slashes a"
proof -
  from assms(1) obtain a1 where a: "a = CHR ''/'' # a1" by (auto simp: isabs_Cons)
  from assms(2) have b: "b = [] \<or> hd b \<noteq> CHR ''/''" by (simp add: not_startswith_slash)
  show ?thesis
  proof (cases a1)
    case Nil
    with a b assms(2) show ?thesis
      by (cases b) (auto simp: join2_rel initial_slashes_def startswith_def)
  next
    case (Cons c1 a2)
    show ?thesis
    proof (cases a2)
      case Nil
      with a b Cons assms(2) show ?thesis
        by (cases b) (auto simp: join2_rel initial_slashes_def startswith_def)
    next
      case (Cons c2 a3)
      with a \<open>a1 = c1 # a2\<close> assms(2) show ?thesis
        by (auto simp: join2_rel initial_slashes_def startswith_def)
    qed
  qed
qed

lemma isabs_join2: "isabs a \<Longrightarrow> \<not> startswith b ''/'' \<Longrightarrow> isabs (join2 a b)"
  by (auto simp: join2_rel isabs_Cons)

lemma isabs_absolute: "isabs wd \<Longrightarrow> isabs (absolute wd p)"
proof (cases "isabs p")
  case True
  then show ?thesis by (simp add: absolute_def)
next
  case False
  assume "isabs wd"
  moreover from False have "\<not> startswith p ''/''" by (simp add: isabs_def)
  ultimately show ?thesis using False by (simp add: absolute_def isabs_join2)
qed

lemma initial_slashes_pos: "isabs p \<Longrightarrow> 0 < initial_slashes p"
  by (simp add: initial_slashes_def isabs_def)

lemma fold_join2:
  assumes "\<not> startswith b ''/''"
  shows "foldl (norm_step k) st (split_sep (join2 a b))
           = foldl (norm_step k) (foldl (norm_step k) st (split_sep a)) (split_sep b)"
proof (cases "a = []")
  case True
  with assms show ?thesis by (simp add: join2_rel)
next
  case False
  show ?thesis
  proof (cases "last a = CHR ''/''")
    case True
    with False obtain a1 where a: "a = a1 @ ''/''"
      by (metis append_butlast_last_id)
    then have "join2 a b = a1 @ CHR ''/'' # b" using assms by (simp add: join2_rel)
    moreover have "split_sep a = split_sep a1 @ [[]]"
      unfolding a using split_on_append_sep[of "CHR ''/''" a1 "[]"] by simp
    ultimately show ?thesis by (simp add: split_on_append_sep)
  next
    case True': False
    with False assms have "join2 a b = a @ CHR ''/'' # b" by (simp add: join2_rel)
    then show ?thesis by (simp add: split_on_append_sep)
  qed
qed

lemma absolute_join2:
  assumes wd: "isabs wd" and r: "\<not> startswith r ''/''"
  shows "foldl (norm_step k) [] (split_sep (absolute wd (join2 dir r)))
           = foldl (norm_step k) (foldl (norm_step k) [] (split_sep (absolute wd dir)))
               (split_sep r)"
    and "initial_slashes (absolute wd (join2 dir r)) = initial_slashes (absolute wd dir)"
proof -
  have "(foldl (norm_step k) [] (split_sep (absolute wd (join2 dir r)))
           = foldl (norm_step k) (foldl (norm_step k) [] (split_sep (absolute wd dir)))
               (split_sep r)) \<and>
        initial_slashes (absolute wd (join2 dir r)) = initial_slashes (absolute wd dir)"
  proof (cases "isabs dir")
    case True
    with r have "isabs (join2 dir r)" by (simp add: isabs_join2)
    with True r show ?thesis
      by (simp add: absolute_def fold_join2 initial_slashes_join2)
  next
    case False
    then have d: "\<not> startswith dir ''/''" by (simp add: isabs_def)
    with r have n: "\<not> startswith (join2 dir r) ''/''"
      by (cases dir) (auto simp: join2_rel not_startswith_slash)
    then have "\<not> isabs (join2 dir r)" by (simp add: isabs_def)
    with False d n wd r show ?thesis
      by (simp add: absolute_def fold_join2 initial_slashes_join2)
  qed
  then show "foldl (norm_step k) [] (split_sep (absolute wd (join2 dir r)))
           = foldl (norm_step k) (foldl (norm_step k) [] (split_sep (absolute wd dir)))
               (split_sep r)"
    and "initial_slashes (absolute wd (join2 dir r)) = initial_slashes (absolute wd dir)"
    by simp_all
qed


lemma abspath_form:
  assumes "isabs wd"
  shows "abspath wd p = replicate (initial_slashes (absolute wd p)) CHR ''/''
                          @ join_sep (norm_comps (absolute wd p))"
proof -
  from assms have q: "isabs (absolute wd p)" by (rule isabs_absolute)
  then have "absolute wd p \<noteq> []" "0 < initial_slashes (absolute wd p)"
    by (auto simp: isabs_Cons initial_slashes_pos)
  then show ?thesis
    by (auto simp: abspath_def absolute_def[symmetric] normpath_def norm_comps_def Let_def)
qed

lemma clean_norm_comps: "isabs wd \<Longrightarrow> clean (norm_comps (absolute wd p))"
  unfolding norm_comps_def
  by (intro clean_fold)
     (auto simp: initial_slashes_pos isabs_absolute clean_def dest: split_on_no_sep)

lemma split_leading_slashes:
  "filter (\<lambda>x. x \<noteq> []) (split_sep (replicate k CHR ''/'' @ y))
     = filter (\<lambda>x. x \<noteq> []) (split_sep y)"
  by (induction k) auto

lemma comps_of_clean:
  assumes "clean st"
  shows "filter (\<lambda>x. x \<noteq> []) (split_sep (replicate k CHR ''/'' @ join_sep st)) = st"
proof (cases "st = []")
  case True
  have "filter (\<lambda>x. x \<noteq> []) (split_sep (replicate k CHR ''/'' @ []))
          = filter (\<lambda>x. x \<noteq> []) (split_sep [])"
    by (rule split_leading_slashes)
  with True show ?thesis by simp
next
  case False
  with assms have "split_sep (join_sep st) = st"
    by (intro split_join_sep) (auto simp: clean_def)
  moreover from assms have "filter (\<lambda>x. x \<noteq> []) st = st"
    by (auto simp: clean_def filter_id_conv)
  ultimately show ?thesis by (simp add: split_leading_slashes)
qed

lemma comps_abspath:
  "isabs wd \<Longrightarrow>
     filter (\<lambda>x. x \<noteq> []) (split_sep (abspath wd p)) = norm_comps (absolute wd p)"
  by (simp add: abspath_form comps_of_clean clean_norm_comps)


lemma in_replicate_append: "w \<in> set (replicate n x @ D) \<Longrightarrow> w = x \<or> w \<in> set D"
  by (cases "n = 0") simp_all

lemma clean_member: "clean D \<Longrightarrow> w \<in> set D \<Longrightarrow> w \<noteq> [] \<and> CHR ''/'' \<notin> set w"
  by (simp add: clean_def)

lemma relpath_nonempty:
  "d \<noteq> [] \<Longrightarrow> relpath wd d dir =
     (let start_list = filter (\<lambda>x. x \<noteq> []) (split_sep (abspath wd dir));
          path_list = filter (\<lambda>x. x \<noteq> []) (split_sep (abspath wd d));
          i = common_prefix start_list path_list;
          rel_list = replicate (length start_list - i) ''..'' @ drop i path_list
      in (case rel_list of
            [] \<Rightarrow> Inr ''.''
          | r # rs \<Rightarrow> Inr (path_join r rs)))"
  by (simp only: relpath_def if_False)

lemma relpath_comps:
  assumes "isabs wd" "d \<noteq> []"
  shows "relpath wd d dir =
     (case replicate (length (norm_comps (absolute wd dir))
                        - common_prefix (norm_comps (absolute wd dir))
                            (norm_comps (absolute wd d))) ''..''
             @ drop (common_prefix (norm_comps (absolute wd dir)) (norm_comps (absolute wd d)))
                 (norm_comps (absolute wd d)) of
        [] \<Rightarrow> Inr ''.''
      | r # rs \<Rightarrow> Inr (path_join r rs))"
  using relpath_nonempty[OF assms(2), of wd dir]
  by (simp only: Let_def comps_abspath[OF assms(1)])

text \<open>The relative path leads from the components of the start to those of the path.\<close>

lemma relpath_leads:
  assumes wd: "isabs wd" and d: "d \<noteq> []" and k: "0 < k"
  shows "\<exists>r. relpath wd d dir = Inr r \<and> \<not> startswith r ''/'' \<and>
             foldl (norm_step k) (norm_comps (absolute wd dir)) (split_sep r)
               = norm_comps (absolute wd d)"
proof -
  define S where "S = norm_comps (absolute wd dir)"
  define P where "P = norm_comps (absolute wd d)"
  define i where "i = common_prefix S P"
  define rl where "rl = replicate (length S - i) ''..'' @ drop i P"
  have cS: "clean S" and cP: "clean P"
    using wd by (simp_all add: S_def P_def clean_norm_comps)
  have i: "i \<le> length S" "take i S = take i P"
    using common_prefix_take[of S P] by (simp_all add: i_def)
  have rel: "relpath wd d dir = (case rl of [] \<Rightarrow> Inr ''.'' | r # rs \<Rightarrow> Inr (path_join r rs))"
    using relpath_comps[OF wd d, of dir] by (simp only: rl_def i_def S_def P_def)
  have cd: "clean (drop i P)"
    using cP set_drop_subset[of i P] by (auto simp: clean_def)
  have parts: "\<forall>w\<in>set rl. w \<noteq> [] \<and> CHR ''/'' \<notin> set w"
  proof
    fix w assume "w \<in> set rl"
    then have "w = ''..'' \<or> w \<in> set (drop i P)"
      unfolding rl_def by (rule in_replicate_append)
    then show "w \<noteq> [] \<and> CHR ''/'' \<notin> set w"
    proof
      assume "w = ''..''" then show ?thesis by simp
    next
      assume "w \<in> set (drop i P)" with cd show ?thesis by (rule clean_member)
    qed
  qed
  have fold_rl: "foldl (norm_step k) S rl = P"
  proof -
    have "foldl (norm_step k) S rl
            = foldl (norm_step k) (take (length S - (length S - i)) S) (drop i P)"
      using k cS by (simp add: rl_def fold_parents)
    also have "\<dots> = take i S @ drop i P"
      using i(1) cd by (simp add: fold_clean)
    also have "\<dots> = P" using i(2) by simp
    finally show ?thesis .
  qed
  show ?thesis
  proof (cases rl)
    case Nil
    with fold_rl rel show ?thesis
      by (simp add: S_def P_def startswith_def)
  next
    case (Cons x xs)
    with parts have x: "x \<noteq> []" "CHR ''/'' \<notin> set x" by auto
    then have lx: "last x \<noteq> CHR ''/''" by (metis last_in_set)
    from x have hx: "hd x \<noteq> CHR ''/''" by (metis hd_in_set)
    from parts Cons have "path_join x xs = x @ concat (map (\<lambda>y. CHR ''/'' # y) xs)"
      using x lx by (intro path_join_comps) auto
    then have pj: "path_join x xs = join_sep rl" by (simp add: Cons join_sep_Cons)
    have "split_sep (join_sep rl) = rl"
      using parts Cons by (intro split_join_sep) auto
    moreover have "\<not> startswith (join_sep rl) ''/''"
      using x hx by (cases x) (auto simp: Cons join_sep_Cons startswith_def)
    ultimately show ?thesis using rel Cons pj fold_rl by (simp add: S_def P_def)
  qed
qed






text \<open>Saving a dependency and loading it back gives its absolute, normalised form, up to
  the number of leading slashes, which is that of the directory.\<close>

lemma roundtrip_path:
  assumes wd: "isabs wd" and d: "d \<noteq> []"
  shows "\<exists>r. relpath wd d dir = Inr r \<and>
             abspath wd (join2 dir r)
               = replicate (initial_slashes (absolute wd dir)) CHR ''/''
                   @ join_sep (norm_comps (absolute wd d))"
proof -
  define k where "k = initial_slashes (absolute wd dir)"
  have k: "0 < k" using wd by (simp add: k_def initial_slashes_pos isabs_absolute)
  from relpath_leads[OF wd d k, of dir] obtain r where
    r: "relpath wd d dir = Inr r" "\<not> startswith r ''/''"
       "foldl (norm_step k) (norm_comps (absolute wd dir)) (split_sep r)
          = norm_comps (absolute wd d)"
    by blast
  have k': "initial_slashes (absolute wd (join2 dir r)) = k"
    using absolute_join2(2)[OF wd r(2)] by (simp add: k_def)
  have "norm_comps (absolute wd (join2 dir r))
          = foldl (norm_step k) (foldl (norm_step k) [] (split_sep (absolute wd dir)))
              (split_sep r)"
    unfolding norm_comps_def k' by (rule absolute_join2(1)[OF wd r(2)])
  also have "\<dots> = norm_comps (absolute wd d)"
    using r(3) by (simp add: norm_comps_def k_def)
  finally have "abspath wd (join2 dir r)
                  = replicate k CHR ''/'' @ join_sep (norm_comps (absolute wd d))"
    using wd by (simp add: abspath_form k')
  with r(1) show ?thesis by (simp add: k_def)
qed

lemma initial_slashes_plain:
  assumes "isabs wd" "plain wd" "plain p"
  shows "initial_slashes (absolute wd p) = 1"
proof (cases "isabs p")
  case True
  with assms(3) show ?thesis
    by (auto simp: absolute_def initial_slashes_def plain_def isabs_def)
next
  case False
  then have "\<not> startswith p ''/''" by (simp add: isabs_def)
  with assms False show ?thesis
    by (auto simp: absolute_def initial_slashes_join2)
       (auto simp: initial_slashes_def plain_def isabs_def)
qed

lemma roundtrip_plain:
  assumes "isabs wd" "plain wd" "plain dir" "plain d" "d \<noteq> []"
  shows "\<exists>r. relpath wd d dir = Inr r \<and> abspath wd (path_join dir [r]) = abspath wd d"
proof -
  from roundtrip_path[OF assms(1) assms(5), of dir] obtain r where
    "relpath wd d dir = Inr r"
    "abspath wd (join2 dir r) = replicate (initial_slashes (absolute wd dir)) CHR ''/''
                   @ join_sep (norm_comps (absolute wd d))"
    by blast
  moreover have "initial_slashes (absolute wd dir) = initial_slashes (absolute wd d)"
    using assms by (simp add: initial_slashes_plain)
  ultimately show ?thesis using assms(1) by (simp add: abspath_form path_join_def)
qed

subsection \<open>The cache round trip\<close>

lemma relpaths_round_trip:
  assumes "isabs wd" "plain wd" "plain dir" "\<forall>d\<in>set deps. d \<noteq> [] \<and> plain d"
  shows "\<exists>rs. relpaths wd dir deps = Inr rs \<and>
              map (\<lambda>r. abspath wd (path_join dir [r])) rs = map (abspath wd) deps"
  using assms(4)
proof (induction deps)
  case Nil
  then show ?case by simp
next
  case (Cons d deps)
  then have "plain d" "d \<noteq> []" by simp_all
  with roundtrip_plain[OF assms(1,2,3), of d] obtain r where
    r: "relpath wd d dir = Inr r" "abspath wd (path_join dir [r]) = abspath wd d" by blast
  from Cons obtain rs where
    rs: "relpaths wd dir deps = Inr rs"
        "map (\<lambda>r. abspath wd (path_join dir [r])) rs = map (abspath wd) deps" by auto
  from r rs show ?case by simp
qed

text \<open>
  Claim C3, as amended. Let the working directory be absolute, let no path start with
  two slashes, and let no dependency be empty. Then saving the cache entry of a file
  succeeds, and loading it back, into any build unit of the same file, gives the
  dependencies in their absolute, normalised form and the globals as a set: the globals
  of the file itself when they are a set already.
\<close>

theorem cache_round_trip:
  assumes "isabs (cwd e)" "plain (cwd e)" "plain (dirname f)"
    and "\<forall>d\<in>set (dependencies f). d \<noteq> [] \<and> plain d"
    and "filename f0 = filename f" "dirname f0 = dirname f"
  shows "\<exists>s1. QMLifyFile_save_cache e f s = (Inr (), s1) \<and>
              QMLifyFile_load_cache e f0 s1 =
                (Inr (f0\<lparr> dependencies := map (abspath (cwd e)) (dependencies f),
                         globals := pyset (globals f) \<rparr>), s1) \<and>
              (distinct (globals f) \<longrightarrow> pyset (globals f) = globals f)"
proof -
  from relpaths_round_trip[OF assms(1,2,3,4)] obtain rs where
    rs: "relpaths (cwd e) (dirname f) (dependencies f) = Inr rs"
        "map (\<lambda>r. abspath (cwd e) (path_join (dirname f) [r])) rs
           = map (abspath (cwd e)) (dependencies f)" by blast
  then show ?thesis using assms(5,6)
    by (simp add: QMLifyFile_save_cache_def QMLifyFile_load_cache_def pyset_def)
qed

theorem cache_round_trip_witness:
  "isabs (cwd project_env) \<and> plain (cwd project_env) \<and> plain (dirname project_a) \<and>
   ''src/foo.js'' \<noteq> [] \<and> plain ''src/foo.js'' \<and>
   (\<exists>s1. QMLifyFile_save_cache project_env
            (project_a\<lparr> dependencies := [''src/foo.js''], globals := [''bar''] \<rparr>)
            project_session = (Inr (), s1) \<and>
         QMLifyFile_load_cache project_env project_a s1 =
           (Inr (project_a\<lparr> dependencies := [''/w/src/foo.js''], globals := [''bar''] \<rparr>),
            s1))"
proof -
  let ?f = "project_a\<lparr> dependencies := [''src/foo.js''], globals := [''bar''] \<rparr>"
  have h: "isabs (cwd project_env)" "plain (cwd project_env)" "plain (dirname ?f)"
    "\<forall>d\<in>set (dependencies ?f). d \<noteq> [] \<and> plain d"
    "filename project_a = filename ?f" "dirname project_a = dirname ?f"
    by (simp_all add: project_env_def project_a_def isabs_def plain_def startswith_def)
  have a: "map (abspath (cwd project_env)) (dependencies ?f) = [''/w/src/foo.js'']"
    by (simp add: project_env_def project_a_def path_defs)
  from cache_round_trip[OF h, of project_session] a
  have "\<exists>s1. QMLifyFile_save_cache project_env ?f project_session = (Inr (), s1) \<and>
         QMLifyFile_load_cache project_env project_a s1 =
           (Inr (project_a\<lparr> dependencies := [''/w/src/foo.js''], globals := [''bar''] \<rparr>),
            s1)"
    by (simp add: pyset_def)
  with h(1,2) show ?thesis
    by (simp add: project_a_def plain_def startswith_def)
qed

text \<open>
  The claim as it stands fails on the small project. The build of \<^verbatim>\<open>src/a.js\<close>
  leaves the dependencies \<^verbatim>\<open>src/foo.js\<close>, relative to the working directory, and
  saves them as \<^verbatim>\<open>foo.js\<close>, relative to \<^verbatim>\<open>src\<close>; loading the entry back gives
  \<^verbatim>\<open>/w/src/foo.js\<close>: the same file, but not the same list.
\<close>

theorem cache_round_trip_counterexample:
  "\<exists>f' s'. build project_env (Suc (Suc 0)) project_a project_session = (Inr f', s') \<and>
           dependencies f' = [''src/foo.js'', ''src/foo.js''] \<and>
           (\<exists>f''. QMLifyFile_load_cache project_env f' s' = (Inr f'', s') \<and>
                  dependencies f'' = [''/w/src/foo.js'', ''/w/src/foo.js''] \<and>
                  globals f'' = globals f')"
  by (simp add: build_defs project_defs path_defs endswith_def numeral_eq_Suc)

end
